theory Spec2Isabelle
  imports Main "HOL-Library.Word"
begin

unbundle bit_operations_syntax

section \<open>The histogram engine of package metrics\<close>

text \<open>
  A sequential model of the histogram registry: every function below is the translation
  of the Go function of the same name. The package-level slices are the fields of the
  record \<open>registry\<close>; a pointer that may be nil is an \<open>option\<close>; a panic is a value
  of type \<open>error\<close> and ends the run. The read/write lock is not modelled: one operation
  runs at a time. Unsigned 64-bit and 32-bit integers are words, so every addition wraps
  as the Go addition does.
\<close>

subsection \<open>Constants and data\<close>

type_synonym u64 = "64 word"
type_synonym u32 = "32 word"

definition maxNumHists :: nat where
  "maxNumHists = 1024"

definition buflen :: u64 where
  "buflen = 0x7FFF"

definition bhistlen :: nat where
  "bhistlen = 65"

definition MaxUint64 :: u64 where
  "MaxUint64 = 0xFFFFFFFFFFFFFFFF"

datatype error = TooManyHistograms | IndexOutOfRange | NilDereference

text \<open>The struct \<open>hdat\<close>; the fields total, min and max carry a suffix, their names
  being constants of HOL.\<close>

record hdat =
  count :: u64
  kept :: u64
  total_v :: u64
  min_v :: u64
  max_v :: u64
  buf :: "u64 list"

text \<open>The struct \<open>hist\<close> without its lock. Both buffers are allocated by \<open>newHist\<close>
  and only ever exchanged, so neither pointer is nil.\<close>

record hist =
  prim :: hdat
  sec :: hdat

record bhist =
  buckets :: "u64 list"

record registry =
  hnames :: "string list"
  hsampled :: "bool list"
  hists :: "hist option list"
  bhists :: "bhist option list"
  curHistID :: u32

definition newHdat :: hdat where
  "newHdat = \<lparr> count = 0, kept = 0, total_v = 0, min_v = MaxUint64, max_v = 0,
               buf = replicate (unat buflen + 1) 0 \<rparr>"

definition newHist :: hist where
  "newHist = \<lparr> prim = newHdat, sec = newHdat \<rparr>"

definition newBHist :: bhist where
  "newBHist = \<lparr> buckets = replicate 65 0 \<rparr>"

text \<open>The package variables as \<open>init\<close> leaves them.\<close>

definition init_registry :: registry where
  "init_registry = \<lparr> hnames = replicate maxNumHists [],
                      hsampled = replicate maxNumHists False,
                      hists = replicate maxNumHists None,
                      bhists = replicate maxNumHists None,
                      curHistID = 0 \<rparr>"

subsection \<open>Registration\<close>

text \<open>\<open>AddHistogram\<close>: the counter is incremented first, the handle is the value before
  the increment, and the bound is checked on the handle. The four tables are allocated
  once with 1024 slots, so a handle that has passed the check is in range.\<close>

definition AddHistogram :: "string \<Rightarrow> bool \<Rightarrow> registry \<Rightarrow> error + (u32 \<times> registry)" where
  "AddHistogram name sampled s =
     (let c = curHistID s + 1;
          idx = c - 1
      in if unat idx \<ge> maxNumHists then Inl TooManyHistograms
         else Inr (idx, s\<lparr> hnames := (hnames s)[unat idx := name],
                            hsampled := (hsampled s)[unat idx := sampled],
                            hists := (hists s)[unat idx := Some newHist],
                            bhists := (bhists s)[unat idx := Some newBHist],
                            curHistID := c \<rparr>))"

text \<open>A start-up phase: the registrations of a list, in order, up to the first panic.\<close>

fun AddAll :: "(string \<times> bool) list \<Rightarrow> registry \<Rightarrow> error + (u32 list \<times> registry)" where
  "AddAll [] s = Inr ([], s)"
| "AddAll (r # rs) s =
     (case AddHistogram (fst r) (snd r) s of
        Inl e \<Rightarrow> Inl e
      | Inr (h, s') \<Rightarrow>
          (case AddAll rs s' of
             Inl e \<Rightarrow> Inl e
           | Inr (hs, s'') \<Rightarrow> Inr (h # hs, s'')))"

subsection \<open>Observation\<close>

text \<open>Modelled from the spec: \<open>lzcnt\<close> is called by \<open>ObserveHist\<close> and defined in a file
  that is not among the sources. The specification gives it as the number of leading zero
  bits in the 64-bit binary representation of the value.\<close>

definition lzcnt :: "u64 \<Rightarrow> nat" where
  "lzcnt v = length (takeWhile (\<lambda>i. \<not> bit v i) (rev [0..<64]))"

text \<open>\<open>atomic.CompareAndSwapUint64\<close> on a cell: the outcome and the cell afterwards.\<close>

definition CompareAndSwapUint64 :: "u64 \<Rightarrow> u64 \<Rightarrow> u64 \<Rightarrow> bool \<times> u64" where
  "CompareAndSwapUint64 cell old new = (if cell = old then (True, new) else (False, cell))"

text \<open>The two compare-and-swap cycles of \<open>ObserveHist\<close>, as functions of the cell. With one operation
  at a time nothing changes the cell between the load and the swap, so the swap succeeds
  and the loop ends after one round: that is the termination proof.\<close>

function max_loop :: "u64 \<Rightarrow> u64 \<Rightarrow> u64" where
  "max_loop val cell =
     (let m = cell in
      if val < m then cell
      else (let r = CompareAndSwapUint64 cell m val in
            if fst r then snd r else max_loop val (snd r)))"
  by pat_completeness auto
termination
  by (relation "{}") (auto simp: CompareAndSwapUint64_def)

function min_loop :: "u64 \<Rightarrow> u64 \<Rightarrow> u64" where
  "min_loop val cell =
     (let m = cell in
      if val > m then cell
      else (let r = CompareAndSwapUint64 cell m val in
            if fst r then snd r else min_loop val (snd r)))"
  by pat_completeness auto
termination
  by (relation "{}") (auto simp: CompareAndSwapUint64_def)

text \<open>\<open>ObserveHist\<close>. Each index expression of the source is a bounds check here, each
  pointer dereference a nil check, in the order of the source.\<close>

definition ObserveHist :: "u32 \<Rightarrow> u64 \<Rightarrow> registry \<Rightarrow> error + registry" where
  "ObserveHist hid val s =
     (if unat hid \<ge> length (hists s) then Inl IndexOutOfRange
      else case hists s ! unat hid of
        None \<Rightarrow> Inl NilDereference
      | Some h \<Rightarrow>
         (let p1 = (prim h)\<lparr> total_v := total_v (prim h) + val \<rparr>;
              p2 = p1\<lparr> max_v := max_loop val (max_v p1) \<rparr>;
              p3 = p2\<lparr> min_v := min_loop val (min_v p2) \<rparr>;
              bucket = lzcnt val
          in if unat hid \<ge> length (bhists s) then Inl IndexOutOfRange
             else case bhists s ! unat hid of
               None \<Rightarrow> Inl NilDereference
             | Some b \<Rightarrow>
                if bucket \<ge> length (buckets b) then Inl IndexOutOfRange
                else
                 (let b' = b\<lparr> buckets := (buckets b)[bucket := buckets b ! bucket + 1] \<rparr>;
                      c = count p3 + 1;
                      p4 = p3\<lparr> count := c \<rparr>;
                      s1 = s\<lparr> bhists := (bhists s)[unat hid := Some b'] \<rparr>
                  in if unat hid \<ge> length (hsampled s) then Inl IndexOutOfRange
                     else if hsampled s ! unat hid \<and> (c AND 0x3) > 0
                       then Inr (s1\<lparr> hists := (hists s)[unat hid := Some (h\<lparr> prim := p4 \<rparr>)] \<rparr>)
                     else
                      (let k = kept p4 + 1;
                           idx = k AND buflen;
                           p5 = p4\<lparr> kept := k \<rparr>
                       in if unat idx \<ge> length (buf p5) then Inl IndexOutOfRange
                          else Inr (s1\<lparr> hists := (hists s)[unat hid :=
                                 Some (h\<lparr> prim := p5\<lparr> buf := (buf p5)[unat idx := val] \<rparr> \<rparr>)] \<rparr>)))))"

text \<open>The observations of a list, in order, on one handle.\<close>

fun ObserveAll :: "u32 \<Rightarrow> u64 list \<Rightarrow> registry \<Rightarrow> error + registry" where
  "ObserveAll hid [] s = Inr s"
| "ObserveAll hid (v # vs) s =
     (case ObserveHist hid v s of Inl e \<Rightarrow> Inl e | Inr s' \<Rightarrow> ObserveAll hid vs s')"

subsection \<open>Extraction\<close>

text \<open>\<open>extractAndReset\<close>: exchange the two buffers, reset the new primary, return the
  new secondary. The sample buffers are not touched.\<close>

definition extractAndReset :: "hist \<Rightarrow> hdat \<times> hist" where
  "extractAndReset h =
     (let h1 = h\<lparr> prim := sec h, sec := prim h \<rparr>;
          h2 = h1\<lparr> prim := (prim h1)\<lparr> count := 0, kept := 0, total_v := 0,
                                       max_v := 0, min_v := MaxUint64 \<rparr> \<rparr>
      in (sec h2, h2))"

function getAllHistograms_loop ::
  "nat \<Rightarrow> nat \<Rightarrow> (string \<rightharpoonup> hdat) \<Rightarrow> registry \<Rightarrow> error + ((string \<rightharpoonup> hdat) \<times> registry)" where
  "getAllHistograms_loop i n ret s =
     (if i < n then
        (if i \<ge> length (hnames s) \<or> i \<ge> length (hists s) then Inl IndexOutOfRange
         else case hists s ! i of
           None \<Rightarrow> Inl NilDereference
         | Some h \<Rightarrow>
            (let r = extractAndReset h
             in getAllHistograms_loop (i + 1) n (ret(hnames s ! i \<mapsto> fst r))
                  (s\<lparr> hists := (hists s)[i := Some (snd r)] \<rparr>)))
      else Inr (ret, s))"
  by pat_completeness auto
termination
  by (relation "measure (\<lambda>(i, n, ret, s). n - i)") auto

definition getAllHistograms :: "registry \<Rightarrow> error + ((string \<rightharpoonup> hdat) \<times> registry)" where
  "getAllHistograms s = getAllHistograms_loop 0 (unat (curHistID s)) Map.empty s"

function extractBHist_loop :: "nat \<Rightarrow> bhist \<Rightarrow> u64 list \<Rightarrow> error + u64 list" where
  "extractBHist_loop i b ret =
     (if i < bhistlen then
        (if i \<ge> length (buckets b) then Inl IndexOutOfRange
         else extractBHist_loop (i + 1) b (ret[i := buckets b ! i]))
      else Inr ret)"
  by pat_completeness auto
termination
  by (relation "measure (\<lambda>(i, b, ret). bhistlen - i)") auto

definition extractBHist :: "bhist \<Rightarrow> error + u64 list" where
  "extractBHist b = extractBHist_loop 0 b (replicate bhistlen 0)"

function getAllBucketHistograms_loop ::
  "nat \<Rightarrow> nat \<Rightarrow> (string \<rightharpoonup> u64 list) \<Rightarrow> registry \<Rightarrow> error + (string \<rightharpoonup> u64 list)" where
  "getAllBucketHistograms_loop i n ret s =
     (if i < n then
        (if i \<ge> length (hnames s) \<or> i \<ge> length (bhists s) then Inl IndexOutOfRange
         else case bhists s ! i of
           None \<Rightarrow> Inl NilDereference
         | Some b \<Rightarrow>
            (case extractBHist b of
               Inl e \<Rightarrow> Inl e
             | Inr r \<Rightarrow> getAllBucketHistograms_loop (i + 1) n (ret(hnames s ! i \<mapsto> r)) s))
      else Inr ret)"
  by pat_completeness auto
termination
  by (relation "measure (\<lambda>(i, n, ret, s). n - i)") auto

definition getAllBucketHistograms :: "registry \<Rightarrow> error + (string \<rightharpoonup> u64 list)" where
  "getAllBucketHistograms s = getAllBucketHistograms_loop 0 (unat (curHistID s)) Map.empty s"

subsection \<open>Notions used to state the properties\<close>

text \<open>A handle is registered in a state when the four tables have a slot for it and the
  slot holds what \<open>AddHistogram\<close> puts there: a store whose two sample buffers have
  32768 slots and a bucket histogram of 65 counters.\<close>

definition registered_at :: "registry \<Rightarrow> nat \<Rightarrow> bool" where
  "registered_at s i =
     (i < length (hnames s) \<and> i < length (hsampled s) \<and>
      i < length (hists s) \<and> i < length (bhists s) \<and>
      (case hists s ! i of
         None \<Rightarrow> False
       | Some h \<Rightarrow> length (buf (prim h)) = 32768 \<and> length (buf (sec h)) = 32768) \<and>
      (case bhists s ! i of
         None \<Rightarrow> False
       | Some b \<Rightarrow> length (buckets b) = 65))"

definition registered :: "registry \<Rightarrow> u32 \<Rightarrow> bool" where
  "registered s hid = registered_at s (unat hid)"

text \<open>The states the package can be in: the tables keep their 1024 slots, the counter
  has not passed 1024, the slots below the counter are registered and the slots from the
  counter on are still nil.\<close>

definition wf_registry :: "registry \<Rightarrow> bool" where
  "wf_registry s =
     (length (hnames s) = maxNumHists \<and> length (hsampled s) = maxNumHists \<and>
      length (hists s) = maxNumHists \<and> length (bhists s) = maxNumHists \<and>
      unat (curHistID s) \<le> maxNumHists \<and>
      list_all (\<lambda>i. if i < unat (curHistID s) then registered_at s i
                     else hists s ! i = None \<and> bhists s ! i = None) [0..<maxNumHists])"

text \<open>A buffer is freshly reset when its five counters hold what \<open>newHdat\<close> and
  \<open>extractAndReset\<close> store in them.\<close>

definition fresh :: "hdat \<Rightarrow> bool" where
  "fresh p = (count p = 0 \<and> kept p = 0 \<and> total_v p = 0 \<and> max_v p = 0 \<and> min_v p = MaxUint64)"

text \<open>The effect of one observation on the primary buffer, and on the bucket counters,
  written without the checks; \<open>ObserveHist\<close> is shown below to have this effect on a
  registered handle.\<close>

definition observe_hdat :: "bool \<Rightarrow> u64 \<Rightarrow> hdat \<Rightarrow> hdat" where
  "observe_hdat sampled v p =
     (let q = p\<lparr> total_v := total_v p + v, max_v := max (max_v p) v,
                 min_v := min (min_v p) v, count := count p + 1 \<rparr>
      in if sampled \<and> (count p + 1) AND 0x3 \<noteq> 0 then q
         else q\<lparr> kept := kept p + 1,
                 buf := (buf p)[unat ((kept p + 1) AND buflen) := v] \<rparr>)"

definition observe_buckets :: "u64 \<Rightarrow> u64 list \<Rightarrow> u64 list" where
  "observe_buckets v bs = bs[lzcnt v := bs ! lzcnt v + 1]"

text \<open>The observations that reach the sample buffer, in order, out of a list observed
  when the buffer's count stands at \<open>m\<close>: all of them, or with sampling those that
  bring the count to a multiple of 4.\<close>

fun retained :: "bool \<Rightarrow> nat \<Rightarrow> u64 list \<Rightarrow> u64 list" where
  "retained sampled m [] = []"
| "retained sampled m (v # vs) =
     (if sampled \<and> (m + 1) mod 4 \<noteq> 0 then retained sampled (m + 1) vs
      else v # retained sampled (m + 1) vs)"

text \<open>Writing retained values into a sample buffer whose kept counter stands at \<open>k\<close>.\<close>

fun write_all :: "u64 \<Rightarrow> u64 list \<Rightarrow> u64 list \<Rightarrow> u64 list" where
  "write_all k [] b = b"
| "write_all k (v # r) b = write_all (k + 1) r (b[unat ((k + 1) AND buflen) := v])"

text \<open>The scenarios of the specification: register one histogram in the initial registry,
  observe a list of values, extract once; the result is the snapshot.\<close>

definition scenario :: "string \<Rightarrow> bool \<Rightarrow> u64 list \<Rightarrow> error + hdat" where
  "scenario name sampled vs =
     (case AddHistogram name sampled init_registry of
        Inl e \<Rightarrow> Inl e
      | Inr (hid, s) \<Rightarrow>
         (case ObserveAll hid vs s of
            Inl e \<Rightarrow> Inl e
          | Inr s' \<Rightarrow>
             (case hists s' ! unat hid of
                None \<Rightarrow> Inl NilDereference
              | Some h \<Rightarrow> Inr (fst (extractAndReset h)))))"

text \<open>The registry after the registration of one histogram.\<close>

definition one_histogram :: "string \<Rightarrow> bool \<Rightarrow> registry" where
  "one_histogram name sampled =
     (case AddHistogram name sampled init_registry of
        Inl e \<Rightarrow> init_registry
      | Inr (hid, s) \<Rightarrow> s)"

text \<open>The five counters of a buffer: count, kept, total, min, max.\<close>

definition summary :: "hdat \<Rightarrow> u64 \<times> u64 \<times> u64 \<times> u64 \<times> u64" where
  "summary p = (count p, kept p, total_v p, min_v p, max_v p)"

text \<open>The bucket counter \<open>j\<close> that the bucket export shows under the name, in the
  same scenarios.\<close>

definition scenario_bucket :: "string \<Rightarrow> bool \<Rightarrow> u64 list \<Rightarrow> nat \<Rightarrow> error + u64" where
  "scenario_bucket name sampled vs j =
     (case AddHistogram name sampled init_registry of
        Inl e \<Rightarrow> Inl e
      | Inr (hid, s) \<Rightarrow>
         (case ObserveAll hid vs s of
            Inl e \<Rightarrow> Inl e
          | Inr s' \<Rightarrow>
             (case getAllBucketHistograms s' of
                Inl e \<Rightarrow> Inl e
              | Inr m \<Rightarrow>
                 (case m name of
                    None \<Rightarrow> Inl IndexOutOfRange
                  | Some bs \<Rightarrow> if j < length bs then Inr (bs ! j) else Inl IndexOutOfRange))))"

text \<open>The operations of the package, and a run of them from a state, up to the first
  panic. \<open>Extract\<close> is \<open>extractAndReset\<close> called on the store of a handle, the
  snapshot dropped; the two exports keep only their effect on the state.\<close>

datatype op = Add string bool | Observe u32 u64 | Extract u32 | GetAll | GetAllBuckets

fun step :: "op \<Rightarrow> registry \<Rightarrow> error + registry" where
  "step (Add name sampled) s =
     (case AddHistogram name sampled s of Inl e \<Rightarrow> Inl e | Inr (hid, s') \<Rightarrow> Inr s')"
| "step (Observe hid v) s = ObserveHist hid v s"
| "step (Extract hid) s =
     (if unat hid \<ge> length (hists s) then Inl IndexOutOfRange
      else case hists s ! unat hid of
        None \<Rightarrow> Inl NilDereference
      | Some h \<Rightarrow> Inr (s\<lparr> hists := (hists s)[unat hid := Some (snd (extractAndReset h))] \<rparr>))"
| "step GetAll s =
     (case getAllHistograms s of Inl e \<Rightarrow> Inl e | Inr (m, s') \<Rightarrow> Inr s')"
| "step GetAllBuckets s =
     (case getAllBucketHistograms s of Inl e \<Rightarrow> Inl e | Inr m \<Rightarrow> Inr s)"

fun run :: "op list \<Rightarrow> registry \<Rightarrow> error + registry" where
  "run [] s = Inr s"
| "run (x # xs) s = (case step x s of Inl e \<Rightarrow> Inl e | Inr s' \<Rightarrow> run xs s')"

text \<open>A registry with one histogram whose bucket 0 stands at the largest 64-bit
  value: the state after \<open>2^64 - 1\<close> observations of values with the highest bit set, as
  far as the bucket counters go.\<close>

definition saturated_histogram :: registry where
  "saturated_histogram =
     (one_histogram ''latency'' False)
       \<lparr> bhists := (bhists (one_histogram ''latency'' False))
            [0 := Some \<lparr> buckets = (replicate 65 0)[0 := MaxUint64] \<rparr>] \<rparr>"

text \<open>The state a run from the initial registry ends in.\<close>

definition registry_after :: "op list \<Rightarrow> registry" where
  "registry_after ops = (case run ops init_registry of Inl e \<Rightarrow> init_registry | Inr s \<Rightarrow> s)"

text \<open>The invariant of an aggregate buffer, as the specification states it, and the
  states all of whose buffers satisfy it.\<close>

definition hdat_inv :: "hdat \<Rightarrow> bool" where
  "hdat_inv p =
     (kept p \<le> count p \<and> (count p > 0 \<longrightarrow> min_v p \<le> max_v p) \<and>
      (count p = 0 \<longrightarrow> min_v p = MaxUint64 \<and> max_v p = 0))"

definition stores_inv :: "registry \<Rightarrow> bool" where
  "stores_inv s =
     list_all (\<lambda>x. case x of None \<Rightarrow> True
                    | Some h \<Rightarrow> hdat_inv (prim h) \<and> hdat_inv (sec h)) (hists s)"

text \<open>The number of observations each primary buffer has counted in its current
  interval, by slot, and how an operation changes these numbers: an observation adds one
  to the number of its handle, an extraction starts a new interval for its handle, the
  export of the aggregates starts one for every handle. A run keeps its intervals below
  \<open>2^64\<close> when no observation of the run brings the number of its handle to \<open>2^64\<close>.\<close>

definition interval_counts :: "registry \<Rightarrow> nat \<Rightarrow> nat" where
  "interval_counts s k =
     (if k < length (hists s)
      then (case hists s ! k of None \<Rightarrow> 0 | Some h \<Rightarrow> unat (count (prim h)))
      else 0)"

fun next_intervals :: "op \<Rightarrow> (nat \<Rightarrow> nat) \<Rightarrow> (nat \<Rightarrow> nat)" where
  "next_intervals (Observe hid v) g = g(unat hid := g (unat hid) + 1)"
| "next_intervals (Extract hid) g = g(unat hid := 0)"
| "next_intervals GetAll g = (\<lambda>k. 0)"
| "next_intervals (Add name sampled) g = g"
| "next_intervals GetAllBuckets g = g"

fun observation_fits :: "(nat \<Rightarrow> nat) \<Rightarrow> op \<Rightarrow> bool" where
  "observation_fits g (Observe hid v) = (g (unat hid) + 1 < 2 ^ 64)"
| "observation_fits g (Extract hid) = True"
| "observation_fits g GetAll = True"
| "observation_fits g (Add name sampled) = True"
| "observation_fits g GetAllBuckets = True"

fun intervals_below :: "(nat \<Rightarrow> nat) \<Rightarrow> op list \<Rightarrow> bool" where
  "intervals_below g [] = True"
| "intervals_below g (x # xs) = (observation_fits g x \<and> intervals_below (next_intervals x g) xs)"

text \<open>The number of increments each bucket counter stands for, by slot and bucket, and
  how an operation changes these numbers: an observation adds one to the number of its
  bucket, no other operation changes any. A run keeps its counters below \<open>2^64\<close> when no
  observation of the run brings the number of its bucket to \<open>2^64\<close>.\<close>

definition bucket_counts :: "registry \<Rightarrow> nat \<Rightarrow> nat \<Rightarrow> nat" where
  "bucket_counts s k j =
     (if k < length (bhists s)
      then (case bhists s ! k of
              None \<Rightarrow> 0
            | Some b \<Rightarrow> if j < length (buckets b) then unat (buckets b ! j) else 0)
      else 0)"

fun next_increments :: "op \<Rightarrow> (nat \<Rightarrow> nat \<Rightarrow> nat) \<Rightarrow> (nat \<Rightarrow> nat \<Rightarrow> nat)" where
  "next_increments (Observe hid v) g =
     g(unat hid := (g (unat hid))(lzcnt v := g (unat hid) (lzcnt v) + 1))"
| "next_increments (Extract hid) g = g"
| "next_increments GetAll g = g"
| "next_increments (Add name sampled) g = g"
| "next_increments GetAllBuckets g = g"

fun increment_fits :: "(nat \<Rightarrow> nat \<Rightarrow> nat) \<Rightarrow> op \<Rightarrow> bool" where
  "increment_fits g (Observe hid v) = (g (unat hid) (lzcnt v) + 1 < 2 ^ 64)"
| "increment_fits g (Extract hid) = True"
| "increment_fits g GetAll = True"
| "increment_fits g (Add name sampled) = True"
| "increment_fits g GetAllBuckets = True"

fun increments_below :: "(nat \<Rightarrow> nat \<Rightarrow> nat) \<Rightarrow> op list \<Rightarrow> bool" where
  "increments_below g [] = True"
| "increments_below g (x # xs) = (increment_fits g x \<and> increments_below (next_increments x g) xs)"

text \<open>Every bucket counter of the first state is still there in the second, and not
  smaller.\<close>

definition buckets_mono :: "registry \<Rightarrow> registry \<Rightarrow> bool" where
  "buckets_mono s s' =
     (length (bhists s') = length (bhists s) \<and>
      list_all (\<lambda>k. case bhists s ! k of
                      None \<Rightarrow> True
                    | Some b \<Rightarrow>
                       (case bhists s' ! k of
                          None \<Rightarrow> False
                        | Some b' \<Rightarrow> length (buckets b') = length (buckets b) \<and>
                            list_all (\<lambda>j. buckets b ! j \<le> buckets b' ! j) [0..<length (buckets b)]))
        [0..<length (bhists s)])"

section \<open>Properties\<close>

subsection \<open>Arithmetic of the masks and of the bucket index\<close>

declare max_loop.simps [simp del] min_loop.simps [simp del]
declare getAllHistograms_loop.simps [simp del] extractBHist_loop.simps [simp del]
declare getAllBucketHistograms_loop.simps [simp del]

lemma max_loop_eq: "max_loop v c = max c v"
  by (subst max_loop.simps) (auto simp: CompareAndSwapUint64_def max_def)

lemma min_loop_eq: "min_loop v c = min c v"
  by (subst min_loop.simps) (auto simp: CompareAndSwapUint64_def min_def)

lemma buflen_mask: "buflen = mask 15"
  by (simp add: buflen_def mask_eq_exp_minus_1)

lemma idx_unat: "unat ((k::u64) AND buflen) = unat k mod 32768"
  by (simp add: buflen_mask unsigned_take_bit_eq take_bit_eq_mod unat_mod flip: take_bit_eq_mask)

lemma idx_bound: "unat ((k::u64) AND buflen) < 32768"
  by (simp add: idx_unat)

lemma idx_in_range: "\<not> 32768 \<le> unat ((k::u64) AND buflen)"
  using idx_bound [of k] by simp

lemma idx_of_nat: "unat ((of_nat i :: u64) AND buflen) = i mod 32768"
proof -
  have "(i mod 2 ^ 64) mod 32768 = i mod 32768"
    by (rule mod_mod_cancel) simp
  then show ?thesis by (simp add: idx_unat unat_of_nat)
qed

lemma three_mask: "(3::u64) = mask 2"
  by (simp add: mask_eq_exp_minus_1)

lemma and3_of_nat: "((of_nat c :: u64) AND 3 = 0) \<longleftrightarrow> c mod 4 = 0"
proof -
  have "((of_nat c :: u64) AND mask 2 = 0) \<longleftrightarrow> 2 ^ 2 dvd unat (of_nat c :: u64)"
    by (simp only: and_mask_dvd_nat)
  also have "\<dots> \<longleftrightarrow> 4 dvd c mod 2 ^ 64"
    by (simp add: unat_of_nat)
  also have "\<dots> \<longleftrightarrow> 4 dvd c"
    by (rule dvd_mod_iff) simp
  finally show ?thesis by (simp add: three_mask dvd_eq_mod_eq_0)
qed

lemma rev_upt_64: "rev [0..<64::nat] = 63 # rev [0..<63]"
proof -
  have "[0..<Suc 63] = [0..<63] @ [63]" by (rule upt_Suc_append) simp
  then show ?thesis by simp
qed

lemma lzcnt_le: "lzcnt v \<le> 64"
  unfolding lzcnt_def by (rule order_trans[OF length_takeWhile_le]) simp

lemma lzcnt_zero: "lzcnt 0 = 64"
  by (simp add: lzcnt_def takeWhile_eq_all_conv[THEN iffD2])

lemma lzcnt_msb: "bit v 63 \<Longrightarrow> lzcnt v = 0"
  by (simp add: lzcnt_def rev_upt_64)

lemma lzcnt_top: "lzcnt (2 ^ 63) = 0"
  by (rule lzcnt_msb) (simp add: bit_exp_iff)

subsection \<open>One observation, and a list of observations, on a registered handle\<close>

lemma ObserveHist_Inr:
  assumes "registered s hid" "hists s ! unat hid = Some h" "bhists s ! unat hid = Some b"
  shows "ObserveHist hid v s =
     Inr (s\<lparr> bhists := (bhists s)[unat hid := Some (b\<lparr> buckets := observe_buckets v (buckets b) \<rparr>)],
             hists := (hists s)[unat hid :=
                Some (h\<lparr> prim := observe_hdat (hsampled s ! unat hid) v (prim h) \<rparr>)] \<rparr>)"
proof -
  have l: "lzcnt v < 65" using lzcnt_le[of v] by simp
  show ?thesis
    using assms l
    by (simp add: ObserveHist_def registered_def registered_at_def observe_hdat_def observe_buckets_def
        max_loop_eq min_loop_eq Let_def idx_in_range word_greater_zero_iff)
qed

lemma registered_observe:
  assumes "registered s hid" "hists s ! unat hid = Some h" "bhists s ! unat hid = Some b"
  shows "registered (s\<lparr> bhists := (bhists s)[unat hid := Some (b\<lparr> buckets := observe_buckets v (buckets b) \<rparr>)],
             hists := (hists s)[unat hid :=
                Some (h\<lparr> prim := observe_hdat sm v (prim h) \<rparr>)] \<rparr>) hid"
  using assms
  by (simp add: registered_def registered_at_def observe_hdat_def observe_buckets_def Let_def)

lemma ObserveAll_Inr:
  assumes "registered s hid" "hists s ! unat hid = Some h" "bhists s ! unat hid = Some b"
  shows "ObserveAll hid vs s =
     Inr (s\<lparr> bhists := (bhists s)[unat hid := Some (b\<lparr> buckets := fold observe_buckets vs (buckets b) \<rparr>)],
             hists := (hists s)[unat hid :=
                Some (h\<lparr> prim := fold (observe_hdat (hsampled s ! unat hid)) vs (prim h) \<rparr>)] \<rparr>)"
  using assms
proof (induction vs arbitrary: s h b)
  case Nil
  then show ?case by (simp add: list_update_same_conv[THEN iffD2] registered_def registered_at_def)
next
  case (Cons v vs)
  let ?s1 = "s\<lparr> bhists := (bhists s)[unat hid := Some (b\<lparr> buckets := observe_buckets v (buckets b) \<rparr>)],
             hists := (hists s)[unat hid :=
                Some (h\<lparr> prim := observe_hdat (hsampled s ! unat hid) v (prim h) \<rparr>)] \<rparr>"
  have r: "registered ?s1 hid" using Cons.prems by (rule registered_observe)
  have i: "unat hid < length (hists s)" "unat hid < length (bhists s)"
    using Cons.prems(1) by (simp_all add: registered_def registered_at_def)
  have "ObserveAll hid (v # vs) s = ObserveAll hid vs ?s1"
    using Cons.prems by (simp add: ObserveHist_Inr)
  also have "\<dots> = Inr (?s1\<lparr> bhists := (bhists ?s1)[unat hid := Some ((b\<lparr> buckets := observe_buckets v (buckets b) \<rparr>)\<lparr> buckets := fold observe_buckets vs (buckets (b\<lparr> buckets := observe_buckets v (buckets b) \<rparr>)) \<rparr>)],
             hists := (hists ?s1)[unat hid :=
                Some ((h\<lparr> prim := observe_hdat (hsampled s ! unat hid) v (prim h) \<rparr>)\<lparr> prim := fold (observe_hdat (hsampled ?s1 ! unat hid)) vs (prim (h\<lparr> prim := observe_hdat (hsampled s ! unat hid) v (prim h) \<rparr>)) \<rparr>)] \<rparr>)"
    by (rule Cons.IH[OF r]) (use i in simp_all)
  finally show ?case by simp
qed

subsection \<open>The primary buffer after a list of observations\<close>

lemma fold_count: "count (fold (observe_hdat sm) vs p) = count p + of_nat (length vs)"
  by (induction vs arbitrary: p) (simp_all add: observe_hdat_def Let_def)

lemma fold_total: "total_v (fold (observe_hdat sm) vs p) = total_v p + sum_list vs"
  by (induction vs arbitrary: p) (simp_all add: observe_hdat_def Let_def add.assoc)

lemma fold_max: "max_v (fold (observe_hdat sm) vs p) = Max (insert (max_v p) (set vs))"
proof (induction vs arbitrary: p)
  case Nil
  then show ?case by simp
next
  case (Cons v vs)
  have "max_v (observe_hdat sm v p) = max (max_v p) v"
    by (simp add: observe_hdat_def Let_def)
  then have "max_v (fold (observe_hdat sm) (v # vs) p) = Max (insert (max (max_v p) v) (set vs))"
    using Cons.IH[of "observe_hdat sm v p"] by simp
  also have "\<dots> = Max (insert (max_v p) (set (v # vs)))"
    by (cases "set vs = {}") (simp_all add: max.assoc max.left_commute max.commute)
  finally show ?case .
qed

lemma fold_min: "min_v (fold (observe_hdat sm) vs p) = Min (insert (min_v p) (set vs))"
proof (induction vs arbitrary: p)
  case Nil
  then show ?case by simp
next
  case (Cons v vs)
  have "min_v (observe_hdat sm v p) = min (min_v p) v"
    by (simp add: observe_hdat_def Let_def)
  then have "min_v (fold (observe_hdat sm) (v # vs) p) = Min (insert (min (min_v p) v) (set vs))"
    using Cons.IH[of "observe_hdat sm v p"] by simp
  also have "\<dots> = Min (insert (min_v p) (set (v # vs)))"
    by (cases "set vs = {}") (simp_all add: min.assoc min.left_commute min.commute)
  finally show ?case .
qed

lemma MaxUint64_minus1: "MaxUint64 = - 1"
  by (simp add: MaxUint64_def)

lemma MaxUint64_top: "(w::u64) \<le> MaxUint64"
  by (simp add: MaxUint64_minus1)

lemma Max_fresh: "vs \<noteq> [] \<Longrightarrow> Max (insert (0::u64) (set vs)) = Max (set vs)"
  by (simp add: max_absorb2)

lemma Min_fresh: "vs \<noteq> [] \<Longrightarrow> Min (insert MaxUint64 (set vs)) = Min (set vs)"
  by (simp add: min_absorb2 MaxUint64_top)

lemma fold_kept_buf:
  "count p = of_nat m \<Longrightarrow>
   kept (fold (observe_hdat sm) vs p) = kept p + of_nat (length (retained sm m vs)) \<and>
   buf (fold (observe_hdat sm) vs p) = write_all (kept p) (retained sm m vs) (buf p)"
proof (induction vs arbitrary: p m)
  case Nil
  then show ?case by simp
next
  case (Cons v vs)
  have c: "count (observe_hdat sm v p) = of_nat (m + 1)"
    using Cons.prems by (simp add: observe_hdat_def Let_def)
  have a: "(count p + 1) AND 3 = 0 \<longleftrightarrow> (m + 1) mod 4 = 0"
    using and3_of_nat[of "Suc m"] Cons.prems by (simp add: add.commute)
  show ?case
  proof (cases "sm \<and> (m + 1) mod 4 \<noteq> 0")
    case True
    then have "kept (observe_hdat sm v p) = kept p" "buf (observe_hdat sm v p) = buf p"
      using a by (simp_all add: observe_hdat_def Let_def)
    then show ?thesis using Cons.IH[OF c] True by simp
  next
    case False
    then have "kept (observe_hdat sm v p) = kept p + 1"
      "buf (observe_hdat sm v p) = (buf p)[unat ((kept p + 1) AND buflen) := v]"
      using a by (auto simp add: observe_hdat_def Let_def)
    then show ?thesis using Cons.IH[OF c] False by (simp add: add.assoc)
  qed
qed

lemma retained_unsampled: "retained False m vs = vs"
  by (induction vs arbitrary: m) simp_all

lemma length_retained_sampled:
  "length (retained True m vs) = (m + length vs) div 4 - m div 4"
proof (induction vs arbitrary: m)
  case Nil
  then show ?case by simp
next
  case (Cons v vs)
  define A where "A = (m + 1 + length vs) div 4"
  define B where "B = m div 4"
  have ih: "length (retained True (m + 1) vs) = A - (m + 1) div 4"
    unfolding A_def by (rule Cons.IH)
  have goal: "(m + length (v # vs)) div 4 - m div 4 = A - B"
    by (simp add: A_def B_def)
  have mono: "(m + 1) div 4 \<le> A"
    unfolding A_def by (rule div_le_mono) simp
  show ?case
  proof (cases "(m + 1) mod 4 = 0")
    case True
    then have "(m + 1) div 4 = B + 1" unfolding B_def by presburger
    moreover have "length (retained True m (v # vs)) = Suc (length (retained True (m + 1) vs))"
      using True by simp
    ultimately show ?thesis unfolding goal using ih mono by linarith
  next
    case False
    then have "(m + 1) div 4 = B" unfolding B_def by presburger
    moreover have "length (retained True m (v # vs)) = length (retained True (m + 1) vs)"
      using False by simp
    ultimately show ?thesis unfolding goal using ih by linarith
  qed
qed

lemma set_retained: "set (retained sm m vs) \<subseteq> set vs"
proof (induction vs arbitrary: m)
  case Nil
  then show ?case by simp
next
  case (Cons v vs)
  have "set (retained sm (m + 1) vs) \<subseteq> set vs" by (rule Cons.IH)
  then show ?case by auto
qed

lemma length_write_all: "length (write_all k r b) = length b"
  by (induction r arbitrary: k b) simp_all

lemma write_all_snoc:
  "write_all k (r @ [v]) b = (write_all k r b)[unat ((k + of_nat (length r) + 1) AND buflen) := v]"
  by (induction r arbitrary: k b) (simp_all add: add.assoc add.commute add.left_commute)

lemma slot_of_nat: "unat (((of_nat n :: u64) + 1) AND buflen) = (n + 1) mod 32768"
  using idx_of_nat[of "Suc n"] by (simp add: add.commute)

lemma nth_write_all_recent:
  "length b = 32768 \<Longrightarrow> i < length r \<Longrightarrow> length r - i \<le> 32768 \<Longrightarrow>
   write_all 0 r b ! ((i + 1) mod 32768) = r ! i"
proof (induction r arbitrary: i rule: rev_induct)
  case Nil
  then show ?case by simp
next
  case (snoc v r)
  have len: "length (write_all 0 r b) = 32768"
    using snoc.prems(1) by (simp add: length_write_all)
  show ?case
  proof (cases "i = length r")
    case True
    then show ?thesis
      using len by (simp add: write_all_snoc slot_of_nat)
  next
    case False
    then have i: "i < length r" "length r - i \<le> 32768" using snoc.prems by simp_all
    have d: "0 < length r - i" "length r - i < 32768" using i snoc.prems by simp_all
    have "(length r + 1) mod 32768 \<noteq> (i + 1) mod 32768"
    proof
      assume "(length r + 1) mod 32768 = (i + 1) mod 32768"
      then have "((length r + 1) - (i + 1)) mod 32768 = 0"
        using i by (metis add_le_mono1 less_or_eq_imp_le mod_eq_dvd_iff_nat dvd_eq_mod_eq_0)
      then show False using d by simp
    qed
    then show ?thesis
      using snoc.IH[OF snoc.prems(1) i] i
      by (simp add: write_all_snoc slot_of_nat nth_append)
  qed
qed

lemma nth_write_all_stale:
  "\<forall>i < length r. (i + 1) mod 32768 \<noteq> j \<Longrightarrow> write_all 0 r b ! j = b ! j"
proof (induction r rule: rev_induct)
  case Nil
  then show ?case by simp
next
  case (snoc v r)
  have "\<forall>i < length r. (i + 1) mod 32768 \<noteq> j" using snoc.prems by simp
  moreover have "(length r + 1) mod 32768 \<noteq> j" using snoc.prems by simp
  ultimately show ?case using snoc.IH by (simp add: write_all_snoc slot_of_nat)
qed

lemma write_all_slot0:
  "length r < 32767 + 1 \<Longrightarrow> write_all 0 r b ! 0 = b ! 0"
  by (rule nth_write_all_stale) auto

subsection \<open>Registration of one histogram, and the scenarios\<close>

lemma AddHistogram_eq:
  "AddHistogram name sampled s =
     (if unat (curHistID s) \<ge> maxNumHists then Inl TooManyHistograms
      else Inr (curHistID s,
             s\<lparr> hnames := (hnames s)[unat (curHistID s) := name],
                hsampled := (hsampled s)[unat (curHistID s) := sampled],
                hists := (hists s)[unat (curHistID s) := Some newHist],
                bhists := (bhists s)[unat (curHistID s) := Some newBHist],
                curHistID := curHistID s + 1 \<rparr>))"
  by (simp add: AddHistogram_def Let_def)

lemma one_histogram_eq:
  "one_histogram name sampled =
     init_registry\<lparr> hnames := (hnames init_registry)[0 := name],
                hsampled := (hsampled init_registry)[0 := sampled],
                hists := (hists init_registry)[0 := Some newHist],
                bhists := (bhists init_registry)[0 := Some newBHist],
                curHistID := 1 \<rparr>"
  by (simp add: one_histogram_def AddHistogram_eq init_registry_def maxNumHists_def)

lemma newHdat_buf: "length (buf newHdat) = 32768"
  by (simp add: newHdat_def buflen_def)

lemma fresh_newHdat: "fresh newHdat"
  by (simp add: fresh_def newHdat_def)

lemma fresh_after_extract: "fresh (prim (snd (extractAndReset h)))"
  by (simp add: fresh_def extractAndReset_def Let_def)

lemma one_histogram_facts:
  "registered (one_histogram name sampled) 0"
  "hists (one_histogram name sampled) ! unat (0::u32) = Some newHist"
  "bhists (one_histogram name sampled) ! unat (0::u32) = Some newBHist"
  "hsampled (one_histogram name sampled) ! unat (0::u32) = sampled"
  "hnames (one_histogram name sampled) ! unat (0::u32) = name"
  "curHistID (one_histogram name sampled) = 1"
  by (simp_all add: one_histogram_eq registered_def registered_at_def init_registry_def
      maxNumHists_def newHist_def newHdat_buf newBHist_def)

lemma AddHistogram_init:
  "AddHistogram name sampled init_registry = Inr (0, one_histogram name sampled)"
  by (simp add: one_histogram_eq AddHistogram_eq init_registry_def maxNumHists_def)

lemma extract_fst: "fst (extractAndReset h) = prim h"
  by (simp add: extractAndReset_def Let_def)

lemma scenario_eq:
  "scenario name sampled vs = Inr (fold (observe_hdat sampled) vs newHdat)"
proof -
  let ?s = "one_histogram name sampled"
  note f = one_histogram_facts [of name sampled]
  have len: "unat (0::u32) < length (hists ?s)"
    using f(1) by (simp only: registered_def registered_at_def)
  have "ObserveAll 0 vs ?s =
     Inr (?s\<lparr> bhists := (bhists ?s)[unat (0::u32) := Some (newBHist\<lparr> buckets := fold observe_buckets vs (buckets newBHist) \<rparr>)],
             hists := (hists ?s)[unat (0::u32) :=
                Some (newHist\<lparr> prim := fold (observe_hdat sampled) vs (prim newHist) \<rparr>)] \<rparr>)"
    using ObserveAll_Inr[OF f(1-3), of vs] by (simp only: f(4))
  then show ?thesis
    using len by (simp add: scenario_def AddHistogram_init extract_fst newHist_def)
qed

subsection \<open>Facts about sums and snapshots\<close>

lemma unat_sum_list: "unat (sum_list (vs :: u64 list)) = sum_list (map unat vs) mod 2 ^ 64"
proof (induction vs)
  case Nil
  then show ?case by simp
next
  case (Cons v vs)
  have "unat (v + sum_list vs) = (unat v + unat (sum_list vs)) mod 2 ^ 64"
    by (simp add: unat_word_ariths)
  also have "\<dots> = (unat v + sum_list (map unat vs) mod 2 ^ 64) mod 2 ^ 64"
    by (simp only: Cons.IH)
  also have "\<dots> = (unat v + sum_list (map unat vs)) mod 2 ^ 64"
    by (rule mod_add_right_eq)
  finally show ?case by simp
qed

lemma registered_bhist:
  assumes "registered s hid"
  obtains b where "bhists s ! unat hid = Some b" "length (buckets b) = 65"
  using assms by (auto simp: registered_def registered_at_def split: option.splits)

lemma newHdat_fields:
  "count newHdat = 0" "kept newHdat = 0" "total_v newHdat = 0"
  "min_v newHdat = MaxUint64" "max_v newHdat = 0"
  by (simp_all add: newHdat_def)

lemma summary_fold:
  "count p = 0 \<Longrightarrow> summary (fold (observe_hdat sm) vs p) =
     (of_nat (length vs), kept p + of_nat (length (retained sm 0 vs)), total_v p + sum_list vs,
      Min (insert (min_v p) (set vs)), Max (insert (max_v p) (set vs)))"
  using fold_kept_buf [of p 0 sm vs]
  by (simp add: summary_def fold_count fold_total fold_min fold_max)

section \<open>The claims of the specification\<close>

subsection \<open>Aggregates and sampling\<close>

text \<open>
  Claim C1, as amended. On a registered handle whose primary buffer is freshly reset, a
  non-empty list of observations \<open>vs\<close> is recorded without a panic, and the snapshot
  that one \<open>extractAndReset\<close> then returns has a count equal to the number of
  observations and a total equal to the sum of the values, both reduced modulo \<open>2^64\<close>
  (the fields are unsigned 64-bit numbers and the additions wrap), a min equal to the
  minimum of the values and a max equal to their maximum.
\<close>
theorem aggregates_after_observations:
  assumes "registered s hid" and "hists s ! unat hid = Some h"
    and "fresh (prim h)" and "vs \<noteq> []"
  shows "\<exists>s' h'. ObserveAll hid vs s = Inr s' \<and> hists s' ! unat hid = Some h' \<and>
     unat (count (fst (extractAndReset h'))) = length vs mod 2 ^ 64 \<and>
     unat (total_v (fst (extractAndReset h'))) = sum_list (map unat vs) mod 2 ^ 64 \<and>
     min_v (fst (extractAndReset h')) = Min (set vs) \<and>
     max_v (fst (extractAndReset h')) = Max (set vs)"
proof -
  obtain b where b: "bhists s ! unat hid = Some b"
    using assms(1) by (rule registered_bhist)
  let ?p = "fold (observe_hdat (hsampled s ! unat hid)) vs (prim h)"
  let ?h = "h\<lparr> prim := ?p \<rparr>"
  have len: "unat hid < length (hists s)"
    using assms(1) by (simp add: registered_def registered_at_def)
  have run: "ObserveAll hid vs s =
     Inr (s\<lparr> bhists := (bhists s)[unat hid := Some (b\<lparr> buckets := fold observe_buckets vs (buckets b) \<rparr>)],
             hists := (hists s)[unat hid := Some ?h] \<rparr>)" (is "_ = Inr ?s")
    using assms(1,2) b by (rule ObserveAll_Inr)
  have at: "hists ?s ! unat hid = Some ?h" using len by simp
  have f: "count (prim h) = 0" "total_v (prim h) = 0" "min_v (prim h) = MaxUint64" "max_v (prim h) = 0"
    using assms(3) by (simp_all add: fresh_def)
  have "unat (count ?p) = length vs mod 2 ^ 64"
    by (simp add: fold_count f unat_of_nat)
  moreover have "unat (total_v ?p) = sum_list (map unat vs) mod 2 ^ 64"
    by (simp add: fold_total f unat_sum_list)
  moreover have "min_v ?p = Min (set vs)"
    using Min_fresh [OF assms(4)] by (simp add: fold_min f)
  moreover have "max_v ?p = Max (set vs)"
    using Max_fresh [OF assms(4)] by (simp add: fold_max f)
  ultimately show ?thesis
    using run at by (simp only: extract_fst) simp
qed

theorem aggregates_after_observations_witness:
  "\<exists>s' h'. ObserveAll 0 [3, 1, 2] (one_histogram ''latency'' False) = Inr s' \<and>
     hists s' ! 0 = Some h' \<and>
     unat (count (fst (extractAndReset h'))) = 3 \<and>
     unat (total_v (fst (extractAndReset h'))) = 6 \<and>
     min_v (fst (extractAndReset h')) = 1 \<and>
     max_v (fst (extractAndReset h')) = 3"
  using aggregates_after_observations
    [OF one_histogram_facts(1,2) [of "''latency''" False], of "[3, 1, 2]"]
  by (simp add: newHist_def fresh_newHdat)

text \<open>The claim as stated has the total equal to the sum. Two observations suffice to
  wrap it: after \<open>2^64 - 1\<close> and 1 the snapshot's total is 0, and the sum is \<open>2^64\<close>.\<close>

theorem total_wraps_counterexample:
  "map_sum id summary (scenario ''latency'' False [MaxUint64, 1]) = Inr (2, 2, 0, 1, MaxUint64) \<and>
   unat MaxUint64 + unat (1::u64) \<noteq> unat (0::u64)"
  by (simp only: scenario_eq map_sum.simps summary_fold [OF newHdat_fields(1)])
    (simp add: newHdat_fields retained_unsampled MaxUint64_def)

text \<open>
  Claim C2, as amended. On a registered handle with the sampled flag set and a freshly
  reset primary buffer, after \<open>n\<close> observations the extracted snapshot has
  \<open>kept = n div 4\<close>, the quotient rounded down, and \<open>count = n\<close> (as unsigned 64-bit
  numbers): an observation is retained when it brings the count to a multiple of 4.
\<close>
theorem sampled_kept_floor:
  assumes "registered s hid" and "hists s ! unat hid = Some h"
    and "fresh (prim h)" and "hsampled s ! unat hid"
  shows "\<exists>s' h'. ObserveAll hid vs s = Inr s' \<and> hists s' ! unat hid = Some h' \<and>
     unat (kept (fst (extractAndReset h'))) = (length vs div 4) mod 2 ^ 64 \<and>
     unat (count (fst (extractAndReset h'))) = length vs mod 2 ^ 64"
proof -
  obtain b where b: "bhists s ! unat hid = Some b"
    using assms(1) by (rule registered_bhist)
  let ?p = "fold (observe_hdat (hsampled s ! unat hid)) vs (prim h)"
  let ?h = "h\<lparr> prim := ?p \<rparr>"
  have len: "unat hid < length (hists s)"
    using assms(1) by (simp add: registered_def registered_at_def)
  have run: "ObserveAll hid vs s =
     Inr (s\<lparr> bhists := (bhists s)[unat hid := Some (b\<lparr> buckets := fold observe_buckets vs (buckets b) \<rparr>)],
             hists := (hists s)[unat hid := Some ?h] \<rparr>)" (is "_ = Inr ?s")
    using assms(1,2) b by (rule ObserveAll_Inr)
  have at: "hists ?s ! unat hid = Some ?h" using len by simp
  have f: "count (prim h) = of_nat 0" "kept (prim h) = 0"
    using assms(3) by (simp_all add: fresh_def)
  have "unat (count ?p) = length vs mod 2 ^ 64"
    using f by (simp add: fold_count unat_of_nat)
  moreover have "unat (kept ?p) = (length vs div 4) mod 2 ^ 64"
    using fold_kept_buf [OF f(1), of True vs] assms(4) f(2)
    by (simp add: length_retained_sampled unat_of_nat)
  ultimately show ?thesis
    using run at by (simp only: extract_fst) simp
qed

theorem sampled_kept_floor_witness:
  "\<exists>s' h'. ObserveAll 0 (replicate 10 10) (one_histogram ''size'' True) = Inr s' \<and>
     hists s' ! 0 = Some h' \<and>
     unat (kept (fst (extractAndReset h'))) = 2 \<and>
     unat (count (fst (extractAndReset h'))) = 10"
  using sampled_kept_floor
    [OF one_histogram_facts(1,2) [of "''size''" True], of "replicate 10 10"]
  by (simp add: newHist_def fresh_newHdat one_histogram_facts [simplified])

text \<open>The claim as stated has \<open>kept\<close> equal to \<open>n / 4\<close> rounded up, 3 for the ten
  observations of the scenario. The code keeps the 4th and the 8th: 2.\<close>

theorem sampled_kept_counterexample:
  "map_sum id summary (scenario ''size'' True (replicate 10 10)) = Inr (10, 2, 100, 10, 10) \<and>
   (2::u64) \<noteq> of_nat ((10 + 3) div 4)"
  by (simp only: scenario_eq map_sum.simps summary_fold [OF newHdat_fields(1)])
    (simp add: newHdat_fields length_retained_sampled MaxUint64_def sum_list_replicate)

subsection \<open>The bucket index and the copy of the counters\<close>

lemma nth_rev_upt_64: "k < 64 \<Longrightarrow> rev [0..<64] ! k = 63 - k"
  by (simp add: rev_nth del: upt_rec_numeral)

lemma lzcnt_zero_bits:
  assumes "64 - lzcnt v \<le> i" "i < 64"
  shows "\<not> bit v i"
proof -
  let ?P = "\<lambda>i. \<not> bit v i"
  let ?xs = "rev [0..<64::nat]"
  have k: "63 - i < length (takeWhile ?P ?xs)"
    using assms by (simp add: lzcnt_def)
  then have "takeWhile ?P ?xs ! (63 - i) \<in> set (takeWhile ?P ?xs)"
    by (rule nth_mem)
  then have "?P (takeWhile ?P ?xs ! (63 - i))"
    by (rule set_takeWhileD[THEN conjunct2])
  moreover have "takeWhile ?P ?xs ! (63 - i) = ?xs ! (63 - i)"
    using k by (rule takeWhile_nth)
  moreover have "?xs ! (63 - i) = 63 - (63 - i)"
    using assms by (intro nth_rev_upt_64) simp
  ultimately show ?thesis using assms by simp
qed

lemma lzcnt_first_one:
  assumes "lzcnt v < 64"
  shows "bit v (63 - lzcnt v)"
proof -
  let ?P = "\<lambda>i. \<not> bit v i"
  let ?xs = "rev [0..<64::nat]"
  have "length (takeWhile ?P ?xs) < length ?xs"
    using assms by (simp add: lzcnt_def)
  then have "\<not> ?P (?xs ! length (takeWhile ?P ?xs))"
    by (rule nth_length_takeWhile)
  moreover have "?xs ! lzcnt v = 63 - lzcnt v"
    using assms by (rule nth_rev_upt_64)
  ultimately show ?thesis by (simp add: lzcnt_def)
qed

lemma lzcnt_top_numeral: "lzcnt 0x8000000000000000 = 0"
proof -
  have "(0x8000000000000000 :: u64) = 2 ^ 63" by simp
  then show ?thesis by (simp only: lzcnt_top)
qed

lemma extractBHist_loop_eq:
  "length (buckets b) = 65 \<Longrightarrow> length ret = 65 \<Longrightarrow> i \<le> 65 \<Longrightarrow>
   extractBHist_loop i b ret = Inr (take i ret @ drop i (buckets b))"
proof (induction i b ret rule: extractBHist_loop.induct)
  case (1 i b ret)
  show ?case
  proof (cases "i < 65")
    case True
    have "extractBHist_loop i b ret = extractBHist_loop (i + 1) b (ret[i := buckets b ! i])"
      using True "1.prems" by (subst extractBHist_loop.simps) (simp add: bhistlen_def)
    also have "\<dots> = Inr (take (i + 1) (ret[i := buckets b ! i]) @ drop (i + 1) (buckets b))"
      using True "1.prems" by (intro "1.IH") (simp_all add: bhistlen_def)
    also have "take (i + 1) (ret[i := buckets b ! i]) = take i ret @ [buckets b ! i]"
      using True "1.prems" by (simp add: take_Suc_conv_app_nth)
    also have "(take i ret @ [buckets b ! i]) @ drop (i + 1) (buckets b) = take i ret @ drop i (buckets b)"
      using True "1.prems" by (simp add: Cons_nth_drop_Suc)
    finally show ?thesis .
  next
    case False
    then have "i = 65" using "1.prems" by simp
    then show ?thesis
      using "1.prems" by (subst extractBHist_loop.simps) (simp add: bhistlen_def)
  qed
qed

lemma extractBHist_eq: "length (buckets b) = 65 \<Longrightarrow> extractBHist b = Inr (buckets b)"
  by (simp add: extractBHist_def extractBHist_loop_eq bhistlen_def)

text \<open>
  Claim C6. For every histogram store, the snapshot returned by the second of two
  consecutive calls of \<open>extractAndReset\<close> has count 0, min at its sentinel, the
  largest unsigned 64-bit value, max 0 and total 0.
\<close>
theorem extract_twice_empty:
  "count (fst (extractAndReset (snd (extractAndReset h)))) = 0 \<and>
   min_v (fst (extractAndReset (snd (extractAndReset h)))) = MaxUint64 \<and>
   max_v (fst (extractAndReset (snd (extractAndReset h)))) = 0 \<and>
   total_v (fst (extractAndReset (snd (extractAndReset h)))) = 0"
  by (simp add: extractAndReset_def Let_def)

text \<open>
  Claim C4. For every 64-bit value \<open>v\<close>, one call of \<open>ObserveHist\<close> on a registered
  handle succeeds and adds exactly 1 to the bucket of index \<open>lzcnt v\<close> of that handle's
  bucket histogram (the addition is the 64-bit one of \<open>atomic.AddUint64\<close>), leaving its
  other 64 buckets and the bucket histograms of all other handles as they were. The index is the number of leading zero bits of \<open>v\<close>: the
  \<open>lzcnt v\<close> highest bits are zero and the next one, if there is one, is set; it is 64 for
  \<open>v = 0\<close> and 0 for \<open>v = 2^63\<close>. \<open>extractBHist\<close> returns the 65 counters; it is
  a function of the histogram alone and returns no new state.
\<close>
theorem observation_increments_one_bucket:
  assumes "registered s hid" and "bhists s ! unat hid = Some b"
  shows "\<exists>s' b'. ObserveHist hid v s = Inr s' \<and> bhists s' ! unat hid = Some b' \<and>
     lzcnt v < 65 \<and> length (buckets b') = 65 \<and>
     buckets b' ! lzcnt v = buckets b ! lzcnt v + 1 \<and>
     unat (buckets b' ! lzcnt v) = (unat (buckets b ! lzcnt v) + 1) mod 2 ^ 64 \<and>
     (\<forall>j < 65. j \<noteq> lzcnt v \<longrightarrow> buckets b' ! j = buckets b ! j) \<and>
     (\<forall>i < 64. 64 - lzcnt v \<le> i \<longrightarrow> \<not> bit v i) \<and>
     (lzcnt v < 64 \<longrightarrow> bit v (63 - lzcnt v)) \<and>
     lzcnt 0 = 64 \<and> lzcnt (2 ^ 63) = 0 \<and>
     extractBHist b' = Inr (buckets b') \<and>
     (\<forall>i. i \<noteq> unat hid \<longrightarrow> bhists s' ! i = bhists s ! i)"
proof -
  obtain h where h: "hists s ! unat hid = Some h"
    using assms(1) by (auto simp: registered_def registered_at_def split: option.splits)
  have len: "unat hid < length (bhists s)" "length (buckets b) = 65"
    using assms by (simp_all add: registered_def registered_at_def)
  have l: "lzcnt v < 65" using lzcnt_le [of v] by simp
  let ?b = "b\<lparr> buckets := observe_buckets v (buckets b) \<rparr>"
  have run: "ObserveHist hid v s =
     Inr (s\<lparr> bhists := (bhists s)[unat hid := Some ?b],
             hists := (hists s)[unat hid :=
                Some (h\<lparr> prim := observe_hdat (hsampled s ! unat hid) v (prim h) \<rparr>)] \<rparr>)"
    (is "_ = Inr ?s")
    using assms(1) h assms(2) by (rule ObserveHist_Inr)
  have at: "bhists ?s ! unat hid = Some ?b" using len by simp
  have b1: "length (buckets ?b) = 65" using len by (simp add: observe_buckets_def)
  have b2: "buckets ?b ! lzcnt v = buckets b ! lzcnt v + 1"
    using len l by (simp add: observe_buckets_def)
  have b2': "unat (buckets ?b ! lzcnt v) = (unat (buckets b ! lzcnt v) + 1) mod 2 ^ 64"
    unfolding b2 by (simp add: unat_word_ariths)
  have b3: "\<forall>j < 65. j \<noteq> lzcnt v \<longrightarrow> buckets ?b ! j = buckets b ! j"
    by (simp add: observe_buckets_def)
  have b4: "\<forall>i < 64. 64 - lzcnt v \<le> i \<longrightarrow> \<not> bit v i"
    using lzcnt_zero_bits [of v] by blast
  have b5: "lzcnt v < 64 \<longrightarrow> bit v (63 - lzcnt v)"
    using lzcnt_first_one [of v] by blast
  have b6: "extractBHist ?b = Inr (buckets ?b)"
    using b1 by (rule extractBHist_eq)
  have b7: "\<forall>i. i \<noteq> unat hid \<longrightarrow> bhists ?s ! i = bhists s ! i"
    by simp
  show ?thesis
    using run at l b1 b2 b2' b3 b4 b5 b6 b7 lzcnt_zero lzcnt_top by blast
qed

theorem observation_increments_one_bucket_witness:
  "\<exists>s' b'. ObserveHist 0 0 (one_histogram ''latency'' False) = Inr s' \<and>
     bhists s' ! 0 = Some b' \<and> length (buckets b') = 65 \<and>
     buckets b' ! 64 = 1 \<and> (\<forall>j < 65. j \<noteq> 64 \<longrightarrow> buckets b' ! j = 0) \<and>
     extractBHist b' = Inr (buckets b')"
  using observation_increments_one_bucket
    [OF one_histogram_facts(1,3) [of "''latency''" False], of 0]
  by (simp add: lzcnt_zero lzcnt_top_numeral newBHist_def) blast

subsection \<open>Registration\<close>

lemma wf_registry_iff:
  "wf_registry s \<longleftrightarrow>
     length (hnames s) = maxNumHists \<and> length (hsampled s) = maxNumHists \<and>
     length (hists s) = maxNumHists \<and> length (bhists s) = maxNumHists \<and>
     unat (curHistID s) \<le> maxNumHists \<and>
     (\<forall>i < maxNumHists. if i < unat (curHistID s) then registered_at s i
                          else hists s ! i = None \<and> bhists s ! i = None)"
  by (simp only: wf_registry_def list_all_iff set_upt atLeastLessThan_iff) auto

lemma wf_init_registry: "wf_registry init_registry"
  by (simp add: wf_registry_iff) (simp add: init_registry_def)

lemma unat_succ_u32: "unat (c::u32) < 1024 \<Longrightarrow> unat (c + 1) = unat c + 1"
  by (simp add: unat_word_ariths)

lemma registered_at_new:
  "i < length (hnames s) \<Longrightarrow> i < length (hsampled s) \<Longrightarrow> i < length (hists s) \<Longrightarrow>
   i < length (bhists s) \<Longrightarrow>
   registered_at (s\<lparr> hnames := (hnames s)[i := name],
                hsampled := (hsampled s)[i := sampled],
                hists := (hists s)[i := Some newHist],
                bhists := (bhists s)[i := Some newBHist],
                curHistID := c \<rparr>) i"
  by (simp add: registered_at_def newHist_def newHdat_buf newBHist_def)

lemma registered_at_other:
  "j \<noteq> i \<Longrightarrow>
   registered_at (s\<lparr> hnames := (hnames s)[i := name],
                hsampled := (hsampled s)[i := sampled],
                hists := (hists s)[i := h],
                bhists := (bhists s)[i := b],
                curHistID := c \<rparr>) j = registered_at s j"
  by (simp add: registered_at_def)

lemma AddHistogram_wf:
  assumes "wf_registry s" and "unat (curHistID s) < maxNumHists"
  shows "\<exists>s'. AddHistogram name sampled s = Inr (curHistID s, s') \<and> wf_registry s' \<and>
     unat (curHistID s') = unat (curHistID s) + 1 \<and>
     hnames s' ! unat (curHistID s) = name \<and> hsampled s' ! unat (curHistID s) = sampled \<and>
     hists s' ! unat (curHistID s) = Some newHist \<and>
     bhists s' ! unat (curHistID s) = Some newBHist \<and>
     (\<forall>i. i \<noteq> unat (curHistID s) \<longrightarrow> hnames s' ! i = hnames s ! i \<and>
        hsampled s' ! i = hsampled s ! i \<and> hists s' ! i = hists s ! i \<and>
        bhists s' ! i = bhists s ! i)"
proof -
  let ?c = "unat (curHistID s)"
  let ?s = "s\<lparr> hnames := (hnames s)[?c := name],
                hsampled := (hsampled s)[?c := sampled],
                hists := (hists s)[?c := Some newHist],
                bhists := (bhists s)[?c := Some newBHist],
                curHistID := curHistID s + 1 \<rparr>"
  have w: "length (hnames s) = maxNumHists" "length (hsampled s) = maxNumHists"
     "length (hists s) = maxNumHists" "length (bhists s) = maxNumHists"
     "\<forall>i < maxNumHists. if i < ?c then registered_at s i
                          else hists s ! i = None \<and> bhists s ! i = None"
    using assms(1) [unfolded wf_registry_iff] by blast+
  have c: "unat (curHistID s + 1) = ?c + 1"
    using assms(2) by (simp add: unat_succ_u32 maxNumHists_def)
  have run: "AddHistogram name sampled s = Inr (curHistID s, ?s)"
    using assms(2) by (simp add: AddHistogram_eq)
  have "\<forall>i < maxNumHists. if i < unat (curHistID ?s) then registered_at ?s i
                          else hists ?s ! i = None \<and> bhists ?s ! i = None"
  proof (intro allI impI)
    fix i assume i: "i < maxNumHists"
    consider "i < ?c" | "i = ?c" | "?c < i" by linarith
    then show "if i < unat (curHistID ?s) then registered_at ?s i
                          else hists ?s ! i = None \<and> bhists ?s ! i = None"
    proof cases
      case 1
      then have "registered_at s i" using w(5) i by auto
      then have "registered_at ?s i" using 1 by (simp only: registered_at_other)
      then show ?thesis using 1 c by simp
    next
      case 2
      have "registered_at ?s ?c" using assms(2) w by (intro registered_at_new) simp_all
      then show ?thesis using 2 c by simp
    next
      case 3
      then have "hists s ! i = None \<and> bhists s ! i = None" using w(5) i by auto
      then show ?thesis using 3 c by simp
    qed
  qed
  then have wf: "wf_registry ?s"
    using w assms(2) c by (simp add: wf_registry_iff)
  have at: "hnames ?s ! ?c = name" "hsampled ?s ! ?c = sampled"
    "hists ?s ! ?c = Some newHist" "bhists ?s ! ?c = Some newBHist"
    using w assms(2) by simp_all
  have other: "\<forall>i. i \<noteq> ?c \<longrightarrow> hnames ?s ! i = hnames s ! i \<and>
        hsampled ?s ! i = hsampled s ! i \<and> hists ?s ! i = hists s ! i \<and>
        bhists ?s ! i = bhists s ! i"
    by simp
  have cs: "unat (curHistID ?s) = ?c + 1" using c by simp
  show ?thesis using run wf cs at other by blast
qed

lemma AddHistogram_full:
  "maxNumHists \<le> unat (curHistID s) \<Longrightarrow> AddHistogram name sampled s = Inl TooManyHistograms"
  by (simp add: AddHistogram_eq)

lemma AddAll_ok:
  "wf_registry s \<Longrightarrow> unat (curHistID s) + length regs \<le> maxNumHists \<Longrightarrow>
   \<exists>s'. AddAll regs s =
          Inr (map of_nat [unat (curHistID s)..<unat (curHistID s) + length regs], s') \<and>
        wf_registry s' \<and> unat (curHistID s') = unat (curHistID s) + length regs \<and>
        (\<forall>k < length regs.
           hnames s' ! (unat (curHistID s) + k) = fst (regs ! k) \<and>
           hsampled s' ! (unat (curHistID s) + k) = snd (regs ! k) \<and>
           hists s' ! (unat (curHistID s) + k) = Some newHist \<and>
           bhists s' ! (unat (curHistID s) + k) = Some newBHist) \<and>
        (\<forall>i < unat (curHistID s).
           hnames s' ! i = hnames s ! i \<and> hsampled s' ! i = hsampled s ! i \<and>
           hists s' ! i = hists s ! i \<and> bhists s' ! i = bhists s ! i)"
proof (induction regs arbitrary: s)
  case Nil
  then show ?case by simp
next
  case (Cons r rs)
  let ?c = "unat (curHistID s)"
  have lt: "?c < maxNumHists" using Cons.prems(2) by simp
  obtain s1 where s1: "AddHistogram (fst r) (snd r) s = Inr (curHistID s, s1)"
    "wf_registry s1" "unat (curHistID s1) = ?c + 1"
    "hnames s1 ! ?c = fst r" "hsampled s1 ! ?c = snd r"
    "hists s1 ! ?c = Some newHist" "bhists s1 ! ?c = Some newBHist"
    and o1: "\<forall>i. i \<noteq> ?c \<longrightarrow> hnames s1 ! i = hnames s ! i \<and>
        hsampled s1 ! i = hsampled s ! i \<and> hists s1 ! i = hists s ! i \<and>
        bhists s1 ! i = bhists s ! i"
    using AddHistogram_wf [OF Cons.prems(1) lt, of "fst r" "snd r"] by blast
  have b: "unat (curHistID s1) + length rs \<le> maxNumHists"
    using Cons.prems(2) s1(3) by simp
  obtain s2 where s2: "AddAll rs s1 = Inr (map of_nat [?c + 1..<?c + 1 + length rs], s2)"
    "wf_registry s2" "unat (curHistID s2) = ?c + 1 + length rs"
    and n2: "\<forall>k < length rs.
           hnames s2 ! (?c + 1 + k) = fst (rs ! k) \<and>
           hsampled s2 ! (?c + 1 + k) = snd (rs ! k) \<and>
           hists s2 ! (?c + 1 + k) = Some newHist \<and>
           bhists s2 ! (?c + 1 + k) = Some newBHist"
    and o2: "\<forall>i < ?c + 1.
           hnames s2 ! i = hnames s1 ! i \<and> hsampled s2 ! i = hsampled s1 ! i \<and>
           hists s2 ! i = hists s1 ! i \<and> bhists s2 ! i = bhists s1 ! i"
    using Cons.IH [OF s1(2) b] unfolding s1(3) by blast
  have hs: "map of_nat [?c..<?c + length (r # rs)] =
      curHistID s # map of_nat [?c + 1..<?c + 1 + length rs]"
  proof -
    have "[?c..<?c + length (r # rs)] = ?c # [Suc ?c..<?c + length (r # rs)]"
      by (rule upt_conv_Cons) simp
    then show ?thesis by simp
  qed
  have run: "AddAll (r # rs) s = Inr (map of_nat [?c..<?c + length (r # rs)], s2)"
    unfolding hs using s1(1) s2(1) by simp
  have cnt: "unat (curHistID s2) = ?c + length (r # rs)"
    using s2(3) by simp
  have new: "\<forall>k < length (r # rs).
           hnames s2 ! (?c + k) = fst ((r # rs) ! k) \<and>
           hsampled s2 ! (?c + k) = snd ((r # rs) ! k) \<and>
           hists s2 ! (?c + k) = Some newHist \<and>
           bhists s2 ! (?c + k) = Some newBHist"
  proof (intro allI impI)
    fix k assume k: "k < length (r # rs)"
    show "hnames s2 ! (?c + k) = fst ((r # rs) ! k) \<and>
           hsampled s2 ! (?c + k) = snd ((r # rs) ! k) \<and>
           hists s2 ! (?c + k) = Some newHist \<and>
           bhists s2 ! (?c + k) = Some newBHist"
    proof (cases k)
      case 0
      then show ?thesis using o2 s1(4-7) by simp
    next
      case (Suc j)
      then have "j < length rs" using k by simp
      then show ?thesis using n2 Suc by simp
    qed
  qed
  have old: "\<forall>i < ?c.
           hnames s2 ! i = hnames s ! i \<and> hsampled s2 ! i = hsampled s ! i \<and>
           hists s2 ! i = hists s ! i \<and> bhists s2 ! i = bhists s ! i"
    using o1 o2 by simp
  show ?case using run s2(2) cnt new old by blast
qed

lemma AddAll_full:
  "wf_registry s \<Longrightarrow> maxNumHists < unat (curHistID s) + length regs \<Longrightarrow>
   AddAll regs s = Inl TooManyHistograms"
proof (induction regs arbitrary: s)
  case Nil
  then show ?case by (simp add: wf_registry_iff)
next
  case (Cons r rs)
  show ?case
  proof (cases "unat (curHistID s) < maxNumHists")
    case True
    obtain s1 where s1: "AddHistogram (fst r) (snd r) s = Inr (curHistID s, s1)"
      "wf_registry s1" "unat (curHistID s1) = unat (curHistID s) + 1"
      using AddHistogram_wf [OF Cons.prems(1) True, of "fst r" "snd r"] by blast
    have "AddAll rs s1 = Inl TooManyHistograms"
      using Cons.prems(2) s1(3) by (intro Cons.IH [OF s1(2)]) simp
    then show ?thesis using s1(1) by simp
  next
    case False
    then show ?thesis by (simp add: AddHistogram_full)
  qed
qed

lemma ObserveHist_not_TooMany: "ObserveHist hid v s \<noteq> Inl TooManyHistograms"
  by (simp add: ObserveHist_def Let_def split: option.splits)

text \<open>
  Claim C3. Starting from the initial registry, the registrations of a list of at most
  1024 entries all succeed, the \<open>(k+1)\<close>-th one returning the handle \<open>k\<close> and leaving
  its name and sampling flag in slot \<open>k\<close>; in a longer list the 1025th registration
  panics with \<open>Too many histograms\<close>. That panic is not one \<open>ObserveHist\<close> can raise.
\<close>
theorem registration_handles:
  "(length regs \<le> maxNumHists \<longrightarrow>
     (\<exists>s'. AddAll regs init_registry = Inr (map of_nat [0..<length regs], s') \<and>
        (\<forall>k < length regs. registered s' (of_nat k) \<and>
           hnames s' ! k = fst (regs ! k) \<and> hsampled s' ! k = snd (regs ! k)))) \<and>
   (maxNumHists < length regs \<longrightarrow> AddAll regs init_registry = Inl TooManyHistograms) \<and>
   maxNumHists = 1024 \<and>
   (\<forall>hid v s. ObserveHist hid v s \<noteq> Inl TooManyHistograms)"
proof -
  have c0: "unat (curHistID init_registry) = 0" by (simp add: init_registry_def)
  have a: "\<exists>s'. AddAll regs init_registry = Inr (map of_nat [0..<length regs], s') \<and>
        (\<forall>k < length regs. registered s' (of_nat k) \<and>
           hnames s' ! k = fst (regs ! k) \<and> hsampled s' ! k = snd (regs ! k))"
    if le: "length regs \<le> maxNumHists"
  proof -
    obtain s' where s': "AddAll regs init_registry = Inr (map of_nat [0..<length regs], s')"
      "wf_registry s'" "unat (curHistID s') = length regs"
      and n: "\<forall>k < length regs. hnames s' ! k = fst (regs ! k) \<and> hsampled s' ! k = snd (regs ! k)"
      using AddAll_ok [OF wf_init_registry, of regs] le unfolding c0 by auto
    have "registered s' (of_nat k)" if k: "k < length regs" for k
    proof -
      have "k < 2 ^ 32" using k le by (simp add: maxNumHists_def)
      then have u: "unat (of_nat k :: u32) = k" by (simp add: unat_of_nat)
      have "k < maxNumHists" using k le by simp
      then have "registered_at s' k"
        using s'(2) [unfolded wf_registry_iff] s'(3) k by auto
      then show ?thesis by (simp add: registered_def u)
    qed
    then show ?thesis using s'(1) n by blast
  qed
  have b: "AddAll regs init_registry = Inl TooManyHistograms" if "maxNumHists < length regs"
    using that by (intro AddAll_full [OF wf_init_registry]) (simp add: c0)
  show ?thesis using a b ObserveHist_not_TooMany by (simp add: maxNumHists_def)
qed

theorem registration_handles_witness:
  "(\<exists>s'. AddAll [(''latency'', False), (''size'', True)] init_registry = Inr ([0, 1], s') \<and>
      registered s' 1 \<and> hnames s' ! 1 = ''size'' \<and> hsampled s' ! 1) \<and>
   AddAll (replicate 1025 (''latency'', False)) init_registry = Inl TooManyHistograms"
proof -
  let ?regs = "[(''latency'', False), (''size'', True)]"
  have le: "length ?regs \<le> maxNumHists" by (simp add: maxNumHists_def)
  have gt: "maxNumHists < length (replicate 1025 (''latency'', False))"
    by (simp add: maxNumHists_def)
  obtain s' where s': "AddAll ?regs init_registry = Inr (map of_nat [0..<length ?regs], s')"
    and all: "\<forall>k < length ?regs. registered s' (of_nat k) \<and>
           hnames s' ! k = fst (?regs ! k) \<and> hsampled s' ! k = snd (?regs ! k)"
    using registration_handles [of ?regs, THEN conjunct1, rule_format, OF le] by blast
  have "registered s' (of_nat 1) \<and> hnames s' ! 1 = fst (?regs ! 1) \<and> hsampled s' ! 1 = snd (?regs ! 1)"
    using all by (rule allE [of _ 1]) simp
  moreover have "map of_nat [0..<length ?regs] = [0, 1 :: u32]"
    by (simp add: upt_conv_Cons)
  ultimately have "\<exists>s'. AddAll ?regs init_registry = Inr ([0, 1], s') \<and>
      registered s' 1 \<and> hnames s' ! 1 = ''size'' \<and> hsampled s' ! 1"
    using s' by auto
  moreover have "AddAll (replicate 1025 (''latency'', False)) init_registry = Inl TooManyHistograms"
    using registration_handles [of "replicate 1025 (''latency'', False)", THEN conjunct2, THEN conjunct1, rule_format, OF gt] .
  ultimately show ?thesis by blast
qed

subsection \<open>The sample buffer\<close>

lemma residue_in_window:
  fixes N :: nat
  assumes "0 < N" and "j < N"
  shows "\<exists>t. base \<le> t \<and> t < base + N \<and> t mod N = j"
proof -
  let ?d = "(j + N - base mod N) mod N"
  have le: "base mod N \<le> j + N" using assms(1) by (simp add: trans_le_add2 less_imp_le)
  have "(base + ?d) mod N = (base mod N + ?d) mod N"
    by (simp add: mod_add_left_eq)
  also have "\<dots> = (base mod N + (j + N - base mod N)) mod N"
    by (simp add: mod_add_right_eq)
  also have "\<dots> = (j + N) mod N" using le by simp
  also have "\<dots> = j" using assms(2) by simp
  finally have "(base + ?d) mod N = j" .
  moreover have "?d < N" using assms(1) by simp
  ultimately show ?thesis by (intro exI [of _ "base + ?d"]) simp
qed

lemma write_all_slots_recent:
  assumes "length b = 32768" and "32768 \<le> length r" and "j < 32768"
  shows "\<exists>i < length r. length r - i \<le> 32768 \<and> write_all 0 r b ! j = r ! i"
proof -
  obtain t where t: "length r - 32768 + 1 \<le> t" "t < length r - 32768 + 1 + 32768"
    "t mod 32768 = j"
    using residue_in_window [of 32768 j "length r - 32768 + 1"] assms(3) by auto
  let ?i = "t - 1"
  have i: "?i < length r" "length r - ?i \<le> 32768" "?i + 1 = t"
    using t assms(2) by simp_all
  have "write_all 0 r b ! ((?i + 1) mod 32768) = r ! ?i"
    using assms(1) i(1,2) by (rule nth_write_all_recent)
  then have "write_all 0 r b ! j = r ! ?i" using i(3) t(3) by simp
  then show ?thesis using i(1,2) by blast
qed

lemma observed_prim:
  assumes "registered s hid" and "hists s ! unat hid = Some h"
  shows "\<exists>s'. ObserveAll hid vs s = Inr s' \<and>
     hists s' ! unat hid = Some (h\<lparr> prim := fold (observe_hdat (hsampled s ! unat hid)) vs (prim h) \<rparr>)"
proof -
  obtain b where b: "bhists s ! unat hid = Some b"
    using assms(1) by (rule registered_bhist)
  have len: "unat hid < length (hists s)"
    using assms(1) by (simp add: registered_def registered_at_def)
  have "ObserveAll hid vs s =
     Inr (s\<lparr> bhists := (bhists s)[unat hid := Some (b\<lparr> buckets := fold observe_buckets vs (buckets b) \<rparr>)],
             hists := (hists s)[unat hid := Some (h\<lparr> prim := fold (observe_hdat (hsampled s ! unat hid)) vs (prim h) \<rparr>)] \<rparr>)"
    using assms b by (rule ObserveAll_Inr)
  then show ?thesis using len by simp
qed

lemma fresh_buf:
  assumes "fresh p"
  shows "buf (fold (observe_hdat sm) vs p) = write_all 0 (retained sm 0 vs) (buf p)"
    and "kept (fold (observe_hdat sm) vs p) = of_nat (length (retained sm 0 vs))"
proof -
  have "count p = of_nat 0" "kept p = 0" using assms by (simp_all add: fresh_def)
  then show "buf (fold (observe_hdat sm) vs p) = write_all 0 (retained sm 0 vs) (buf p)"
    and "kept (fold (observe_hdat sm) vs p) = of_nat (length (retained sm 0 vs))"
    using fold_kept_buf [of p 0 sm vs] by simp_all
qed

text \<open>
  Claim C5. The sample buffer that \<open>newHdat\<close> allocates has exactly 32768 slots, and
  the slot index \<open>kept AND 0x7FFF\<close> is below 32768 whatever \<open>kept\<close> is. When an
  interval that starts on a freshly reset buffer retains \<open>n \<ge> 32768\<close> observations
  \<open>r\<close>, the run does not panic and the samples of the extracted snapshot are still
  32768 in number, every one of them a value observed in the interval; more precisely
  each of the last 32768 retained observations \<open>r ! i\<close>, the \<open>(i+1)\<close>-th one, is found
  at slot \<open>(i+1) mod 32768\<close>, and every slot holds one of these: the most recent values
  have overwritten the older ones.
\<close>
theorem sample_buffer_window:
  assumes "registered s hid" and "hists s ! unat hid = Some h" and "fresh (prim h)"
    and "r = retained (hsampled s ! unat hid) 0 vs" and "32768 \<le> length r"
  shows "length (buf newHdat) = 32768 \<and> (\<forall>k. unat (k AND buflen) < 32768) \<and>
    (\<exists>s' h'. ObserveAll hid vs s = Inr s' \<and> hists s' ! unat hid = Some h' \<and>
       length (buf (fst (extractAndReset h'))) = 32768 \<and>
       set (buf (fst (extractAndReset h'))) \<subseteq> set vs \<and>
       (\<forall>i < length r. length r - i \<le> 32768 \<longrightarrow>
          buf (fst (extractAndReset h')) ! ((i + 1) mod 32768) = r ! i) \<and>
       (\<forall>j < 32768. \<exists>i < length r. length r - i \<le> 32768 \<and>
          buf (fst (extractAndReset h')) ! j = r ! i))"
proof -
  let ?sm = "hsampled s ! unat hid"
  let ?p = "fold (observe_hdat ?sm) vs (prim h)"
  obtain s' where s': "ObserveAll hid vs s = Inr s'" "hists s' ! unat hid = Some (h\<lparr> prim := ?p \<rparr>)"
    using observed_prim [OF assms(1,2)] by blast
  have lb: "length (buf (prim h)) = 32768"
    using assms(1,2) by (simp add: registered_def registered_at_def)
  have bf: "buf ?p = write_all 0 r (buf (prim h))"
    using fresh_buf(1) [OF assms(3)] assms(4) by simp
  have a: "length (buf ?p) = 32768" using lb by (simp add: bf length_write_all)
  have c: "\<forall>i < length r. length r - i \<le> 32768 \<longrightarrow> buf ?p ! ((i + 1) mod 32768) = r ! i"
    using nth_write_all_recent [OF lb] by (simp add: bf)
  have d: "\<forall>j < 32768. \<exists>i < length r. length r - i \<le> 32768 \<and> buf ?p ! j = r ! i"
    using write_all_slots_recent [OF lb assms(5)] by (simp add: bf)
  have "set (buf ?p) \<subseteq> set r"
  proof
    fix x assume "x \<in> set (buf ?p)"
    then obtain j where j: "j < 32768" "buf ?p ! j = x"
      using a by (auto simp: in_set_conv_nth)
    then obtain i where "i < length r" "buf ?p ! j = r ! i" using d by blast
    then show "x \<in> set r" using j(2) by auto
  qed
  then have b: "set (buf ?p) \<subseteq> set vs"
    using set_retained [of ?sm 0 vs] assms(4) by blast
  have "length (buf (fst (extractAndReset (h\<lparr> prim := ?p \<rparr>)))) = 32768 \<and>
       set (buf (fst (extractAndReset (h\<lparr> prim := ?p \<rparr>)))) \<subseteq> set vs \<and>
       (\<forall>i < length r. length r - i \<le> 32768 \<longrightarrow>
          buf (fst (extractAndReset (h\<lparr> prim := ?p \<rparr>))) ! ((i + 1) mod 32768) = r ! i) \<and>
       (\<forall>j < 32768. \<exists>i < length r. length r - i \<le> 32768 \<and>
          buf (fst (extractAndReset (h\<lparr> prim := ?p \<rparr>))) ! j = r ! i)"
    using a b c d by (simp add: extract_fst)
  then show ?thesis using s' newHdat_buf idx_bound by blast
qed

text \<open>
  Claim C10. \<open>ObserveHist\<close> takes the slot from the incremented \<open>kept\<close>. In an
  interval that starts on a freshly reset buffer and retains the observations \<open>r\<close>,
  \<open>kept\<close> ends at their number and the \<open>(i+1)\<close>-th retained observation \<open>r ! i\<close> is
  found at slot \<open>(i+1) mod 32768\<close> as long as it is among the last 32768; the first one
  is at slot 1; slot 0 is written by the 32768th and by none before it, so that after
  fewer than 32768 retained observations slot 0 of the buffer, and of the snapshot
  extracted from it, still holds what it held before the interval.
\<close>
theorem sample_slot_post_increment:
  assumes "registered s hid" and "hists s ! unat hid = Some h" and "fresh (prim h)"
    and "r = retained (hsampled s ! unat hid) 0 vs"
  shows "\<exists>s' h'. ObserveAll hid vs s = Inr s' \<and> hists s' ! unat hid = Some h' \<and>
       kept (prim h') = of_nat (length r) \<and>
       (\<forall>i < length r. length r - i \<le> 32768 \<longrightarrow>
          buf (prim h') ! ((i + 1) mod 32768) = r ! i) \<and>
       (0 < length r \<and> length r \<le> 32768 \<longrightarrow> buf (prim h') ! 1 = r ! 0) \<and>
       (length r < 32768 \<longrightarrow> buf (prim h') ! 0 = buf (prim h) ! 0 \<and>
          buf (fst (extractAndReset h')) ! 0 = buf (prim h) ! 0) \<and>
       (length r = 32768 \<longrightarrow> buf (prim h') ! 0 = r ! 32767)"
proof -
  let ?sm = "hsampled s ! unat hid"
  let ?p = "fold (observe_hdat ?sm) vs (prim h)"
  obtain s' where s': "ObserveAll hid vs s = Inr s'" "hists s' ! unat hid = Some (h\<lparr> prim := ?p \<rparr>)"
    using observed_prim [OF assms(1,2)] by blast
  have lb: "length (buf (prim h)) = 32768"
    using assms(1,2) by (simp add: registered_def registered_at_def)
  have bf: "buf ?p = write_all 0 r (buf (prim h))"
    using fresh_buf(1) [OF assms(3)] assms(4) by simp
  have k: "kept ?p = of_nat (length r)"
    using fresh_buf(2) [OF assms(3)] assms(4) by simp
  have c: "\<forall>i < length r. length r - i \<le> 32768 \<longrightarrow> buf ?p ! ((i + 1) mod 32768) = r ! i"
    using nth_write_all_recent [OF lb] by (simp add: bf)
  have d: "0 < length r \<and> length r \<le> 32768 \<longrightarrow> buf ?p ! 1 = r ! 0"
    using nth_write_all_recent [OF lb, of 0 r] by (simp add: bf)
  have e: "length r < 32768 \<longrightarrow> buf ?p ! 0 = buf (prim h) ! 0"
    using write_all_slot0 [of r "buf (prim h)"] by (simp add: bf)
  have f: "length r = 32768 \<longrightarrow> buf ?p ! 0 = r ! 32767"
    using nth_write_all_recent [OF lb, of 32767 r] by (simp add: bf)
  have "kept (prim (h\<lparr> prim := ?p \<rparr>)) = of_nat (length r) \<and>
       (\<forall>i < length r. length r - i \<le> 32768 \<longrightarrow>
          buf (prim (h\<lparr> prim := ?p \<rparr>)) ! ((i + 1) mod 32768) = r ! i) \<and>
       (0 < length r \<and> length r \<le> 32768 \<longrightarrow> buf (prim (h\<lparr> prim := ?p \<rparr>)) ! 1 = r ! 0) \<and>
       (length r < 32768 \<longrightarrow> buf (prim (h\<lparr> prim := ?p \<rparr>)) ! 0 = buf (prim h) ! 0 \<and>
          buf (fst (extractAndReset (h\<lparr> prim := ?p \<rparr>))) ! 0 = buf (prim h) ! 0) \<and>
       (length r = 32768 \<longrightarrow> buf (prim (h\<lparr> prim := ?p \<rparr>)) ! 0 = r ! 32767)"
    using k c d e f by (simp add: extract_fst)
  then show ?thesis using s' by blast
qed

theorem sample_buffer_window_witness:
  "length (buf newHdat) = 32768 \<and>
   (\<exists>s' h'. ObserveAll 0 (replicate 32768 7) (one_histogram ''latency'' False) = Inr s' \<and>
      hists s' ! 0 = Some h' \<and>
      length (buf (fst (extractAndReset h'))) = 32768 \<and>
      set (buf (fst (extractAndReset h'))) \<subseteq> {7})"
proof -
  note f = one_histogram_facts [of "''latency''" False]
  have fr: "fresh (prim newHist)" by (simp add: newHist_def fresh_newHdat)
  have r: "replicate 32768 7 =
      retained (hsampled (one_histogram ''latency'' False) ! unat (0::u32)) 0 (replicate 32768 7)"
    by (simp only: f(4) retained_unsampled)
  have n: "32768 \<le> length (replicate 32768 (7::u64))" by simp
  have "set (replicate 32768 (7::u64)) = {7}" by simp
  then show ?thesis
    using sample_buffer_window [OF f(1,2) fr r n] by auto
qed

theorem sample_slot_post_increment_witness:
  "\<exists>s' h'. ObserveAll 0 [5, 6] (one_histogram ''latency'' False) = Inr s' \<and>
     hists s' ! 0 = Some h' \<and> kept (prim h') = 2 \<and> buf (prim h') ! 1 = 5 \<and>
     buf (fst (extractAndReset h')) ! 0 = 0"
proof -
  note f = one_histogram_facts [of "''latency''" False]
  have fr: "fresh (prim newHist)" by (simp add: newHist_def fresh_newHdat)
  have r: "[5, 6] =
      retained (hsampled (one_histogram ''latency'' False) ! unat (0::u32)) 0 [5, 6]"
    by (simp only: f(4) retained_unsampled)
  have z: "buf (prim newHist) ! 0 = 0"
    by (simp add: newHist_def newHdat_def buflen_def)
  show ?thesis
    using sample_slot_post_increment [OF f(1,2) fr r] z by auto
qed

subsection \<open>Export\<close>

lemma getAllHistograms_loop_post:
  assumes "n \<le> length (hnames s)" and "n \<le> length (hists s)" and "i \<le> n"
    and "\<forall>k. i \<le> k \<and> k < n \<longrightarrow> (\<exists>h. hists s ! k = Some h)"
  shows "\<exists>m s'. getAllHistograms_loop i n ret s = Inr (m, s') \<and>
     m = ret ++ map_of (rev (map (\<lambda>k. (hnames s ! k, fst (extractAndReset (the (hists s ! k))))) [i..<n])) \<and>
     hnames s' = hnames s \<and> hsampled s' = hsampled s \<and> bhists s' = bhists s \<and>
     curHistID s' = curHistID s \<and> length (hists s') = length (hists s) \<and>
     (\<forall>k. hists s' ! k = (if i \<le> k \<and> k < n then Some (snd (extractAndReset (the (hists s ! k))))
                          else hists s ! k))"
  using assms
proof (induction i n ret s rule: getAllHistograms_loop.induct)
  case (1 i n ret s)
  show ?case
  proof (cases "i < n")
    case False
    then have "i = n" using "1.prems" by simp
    then show ?thesis by (subst getAllHistograms_loop.simps) auto
  next
    case True
    obtain h where h: "hists s ! i = Some h" using True "1.prems"(4) by auto
    let ?r = "extractAndReset h"
    let ?s1 = "s\<lparr> hists := (hists s)[i := Some (snd ?r)] \<rparr>"
    let ?ret1 = "ret(hnames s ! i \<mapsto> fst ?r)"
    let ?f = "\<lambda>s k. (hnames s ! k, fst (extractAndReset (the (hists s ! k))))"
    have bounds: "\<not> (length (hnames s) \<le> i \<or> length (hists s) \<le> i)"
      using True "1.prems"(1,2) by simp
    have step: "getAllHistograms_loop i n ret s = getAllHistograms_loop (i + 1) n ?ret1 ?s1"
      using True bounds h by (subst getAllHistograms_loop.simps) (simp add: Let_def)
    have p1: "n \<le> length (hnames ?s1)" "n \<le> length (hists ?s1)" "i + 1 \<le> n"
      using True "1.prems"(1,2) by simp_all
    have p2: "\<forall>k. i + 1 \<le> k \<and> k < n \<longrightarrow> (\<exists>h. hists ?s1 ! k = Some h)"
      using "1.prems"(4) by simp
    obtain m s' where ih: "getAllHistograms_loop (i + 1) n ?ret1 ?s1 = Inr (m, s')"
      "m = ?ret1 ++ map_of (rev (map (?f ?s1) [i + 1..<n]))"
      "hnames s' = hnames ?s1" "hsampled s' = hsampled ?s1" "bhists s' = bhists ?s1"
      "curHistID s' = curHistID ?s1" "length (hists s') = length (hists ?s1)"
      "\<forall>k. hists s' ! k = (if i + 1 \<le> k \<and> k < n
                then Some (snd (extractAndReset (the (hists ?s1 ! k)))) else hists ?s1 ! k)"
      using "1.IH" [OF True bounds h refl p1 p2] by blast
    have same: "map (?f ?s1) [i + 1..<n] = map (?f s) [i + 1..<n]"
      by (rule map_cong) simp_all
    have upt: "[i..<n] = i # [i + 1..<n]" using True by (simp add: upt_conv_Cons)
    have r1: "?ret1 = ret ++ map_of [?f s i]" using h by (simp add: map_add_def fun_eq_iff)
    have "m = ?ret1 ++ map_of (rev (map (?f s) [i + 1..<n]))"
      using ih(2) unfolding same .
    also have "\<dots> = (ret ++ map_of [?f s i]) ++ map_of (rev (map (?f s) [i + 1..<n]))"
      by (simp only: r1)
    also have "\<dots> = ret ++ map_of (rev (map (?f s) [i..<n]))"
      unfolding upt by (simp only: list.map rev.simps map_of_append map_add_assoc)
    finally have m: "m = ret ++ map_of (rev (map (?f s) [i..<n]))" .
    have hs: "\<forall>k. hists s' ! k = (if i \<le> k \<and> k < n
                then Some (snd (extractAndReset (the (hists s ! k)))) else hists s ! k)"
    proof
      fix k
      show "hists s' ! k = (if i \<le> k \<and> k < n
                then Some (snd (extractAndReset (the (hists s ! k)))) else hists s ! k)"
      proof (cases "k = i")
        case True
        then show ?thesis using ih(8) bounds h \<open>i < n\<close> by simp
      next
        case False
        then show ?thesis using ih(8) by auto
      qed
    qed
    show ?thesis
      unfolding step using ih(1,3-7) m hs by simp
  qed
qed

subsection \<open>The states of the package are preserved\<close>

lemma ObserveHist_InrD:
  assumes "ObserveHist hid v s = Inr s'"
  obtains h b where "unat hid < length (hists s)" and "hists s ! unat hid = Some h"
    and "unat hid < length (bhists s)" and "bhists s ! unat hid = Some b"
    and "s' = s\<lparr> bhists := (bhists s)[unat hid := Some (b\<lparr> buckets := observe_buckets v (buckets b) \<rparr>)],
             hists := (hists s)[unat hid :=
                Some (h\<lparr> prim := observe_hdat (hsampled s ! unat hid) v (prim h) \<rparr>)] \<rparr>"
proof -
  have 1: "unat hid < length (hists s)"
    using assms by (simp add: ObserveHist_def split: if_splits)
  then obtain h where 2: "hists s ! unat hid = Some h"
    using assms by (cases "hists s ! unat hid") (simp_all add: ObserveHist_def)
  have 3: "unat hid < length (bhists s)"
    using assms 1 2 by (simp add: ObserveHist_def Let_def split: if_splits)
  then obtain b where 4: "bhists s ! unat hid = Some b"
    using assms 1 2 by (cases "bhists s ! unat hid") (simp_all add: ObserveHist_def Let_def)
  have 5: "s' = s\<lparr> bhists := (bhists s)[unat hid := Some (b\<lparr> buckets := observe_buckets v (buckets b) \<rparr>)],
             hists := (hists s)[unat hid :=
                Some (h\<lparr> prim := observe_hdat (hsampled s ! unat hid) v (prim h) \<rparr>)] \<rparr>"
    using assms 1 2 3 4
    by (auto simp add: ObserveHist_def Let_def observe_hdat_def observe_buckets_def
        max_loop_eq min_loop_eq word_greater_zero_iff split: if_splits)
  show ?thesis using 1 2 3 4 5 by (rule that)
qed

lemma wf_registeredI:
  assumes "wf_registry s" and "unat hid < length (hists s)" and "hists s ! unat hid = Some h"
  shows "registered s hid" and "unat hid < unat (curHistID s)"
proof -
  have w: "length (hists s) = maxNumHists"
    "\<forall>i < maxNumHists. if i < unat (curHistID s) then registered_at s i
                          else hists s ! i = None \<and> bhists s ! i = None"
    using assms(1) [unfolded wf_registry_iff] by blast+
  have i: "unat hid < maxNumHists" using assms(2) w(1) by simp
  show lt: "unat hid < unat (curHistID s)"
    using w(2) i assms(3) by (metis option.distinct(1))
  then show "registered s hid" using w(2) i by (simp add: registered_def)
qed

lemma wf_update_slot:
  assumes "wf_registry s" and "i < unat (curHistID s)"
    and "length (buf (prim h')) = 32768" and "length (buf (sec h')) = 32768"
    and "length (buckets b') = 65"
  shows "wf_registry (s\<lparr> bhists := (bhists s)[i := Some b'], hists := (hists s)[i := Some h'] \<rparr>)"
proof -
  let ?s = "s\<lparr> bhists := (bhists s)[i := Some b'], hists := (hists s)[i := Some h'] \<rparr>"
  have w: "length (hnames s) = maxNumHists" "length (hsampled s) = maxNumHists"
     "length (hists s) = maxNumHists" "length (bhists s) = maxNumHists"
     "unat (curHistID s) \<le> maxNumHists"
     "\<forall>i < maxNumHists. if i < unat (curHistID s) then registered_at s i
                          else hists s ! i = None \<and> bhists s ! i = None"
    using assms(1) [unfolded wf_registry_iff] by blast+
  have "\<forall>k < maxNumHists. if k < unat (curHistID ?s) then registered_at ?s k
                          else hists ?s ! k = None \<and> bhists ?s ! k = None"
  proof (intro allI impI)
    fix k assume k: "k < maxNumHists"
    show "if k < unat (curHistID ?s) then registered_at ?s k
                          else hists ?s ! k = None \<and> bhists ?s ! k = None"
    proof (cases "k = i")
      case True
      then show ?thesis using assms w k by (simp add: registered_at_def)
    next
      case False
      then show ?thesis using w(6) k by (auto simp: registered_at_def)
    qed
  qed
  then show ?thesis using w by (simp add: wf_registry_iff)
qed

lemma ObserveHist_wf:
  assumes "wf_registry s" and "ObserveHist hid v s = Inr s'"
  shows "wf_registry s'" and "curHistID s' = curHistID s" and "hnames s' = hnames s"
    and "hsampled s' = hsampled s"
proof -
  obtain h b where o: "unat hid < length (hists s)" "hists s ! unat hid = Some h"
    "bhists s ! unat hid = Some b"
    and s': "s' = s\<lparr> bhists := (bhists s)[unat hid := Some (b\<lparr> buckets := observe_buckets v (buckets b) \<rparr>)],
             hists := (hists s)[unat hid :=
                Some (h\<lparr> prim := observe_hdat (hsampled s ! unat hid) v (prim h) \<rparr>)] \<rparr>"
    using assms(2) by (rule ObserveHist_InrD)
  have r: "registered s hid" and lt: "unat hid < unat (curHistID s)"
    using wf_registeredI [OF assms(1) o(1,2)] by blast+
  have l: "length (buf (prim h)) = 32768" "length (buf (sec h)) = 32768" "length (buckets b) = 65"
    using r o by (simp_all add: registered_def registered_at_def)
  show "wf_registry s'"
    unfolding s' using assms(1) lt
    by (rule wf_update_slot) (simp_all add: l observe_hdat_def observe_buckets_def Let_def)
  show "curHistID s' = curHistID s" "hnames s' = hnames s" "hsampled s' = hsampled s"
    by (simp_all add: s')
qed

lemma length_buf_extract:
  "length (buf (prim (snd (extractAndReset h)))) = length (buf (sec h))"
  "length (buf (sec (snd (extractAndReset h)))) = length (buf (prim h))"
  by (simp_all add: extractAndReset_def Let_def)

lemma wf_update_hist:
  assumes "wf_registry s" and "hists s ! i = Some h" and "i < length (hists s)"
  shows "wf_registry (s\<lparr> hists := (hists s)[i := Some (snd (extractAndReset h))] \<rparr>)"
proof -
  let ?s = "s\<lparr> hists := (hists s)[i := Some (snd (extractAndReset h))] \<rparr>"
  have w: "length (hnames s) = maxNumHists" "length (hsampled s) = maxNumHists"
     "length (hists s) = maxNumHists" "length (bhists s) = maxNumHists"
     "unat (curHistID s) \<le> maxNumHists"
     "\<forall>i < maxNumHists. if i < unat (curHistID s) then registered_at s i
                          else hists s ! i = None \<and> bhists s ! i = None"
    using assms(1) [unfolded wf_registry_iff] by blast+
  have "\<forall>k < maxNumHists. if k < unat (curHistID ?s) then registered_at ?s k
                          else hists ?s ! k = None \<and> bhists ?s ! k = None"
  proof (intro allI impI)
    fix k assume k: "k < maxNumHists"
    show "if k < unat (curHistID ?s) then registered_at ?s k
                          else hists ?s ! k = None \<and> bhists ?s ! k = None"
    proof (cases "k = i")
      case True
      then have "k < unat (curHistID s)" using w(6) k assms(2) by (metis option.distinct(1))
      moreover from this have "registered_at s i" using w(6) k True by simp
      ultimately show ?thesis
        using True assms(2,3) by (simp add: registered_at_def length_buf_extract)
    next
      case False
      then show ?thesis using w(6) k by (auto simp: registered_at_def)
    qed
  qed
  then show ?thesis using w by (simp add: wf_registry_iff)
qed

lemma map_of_rev_last:
  assumes "j < n" and "\<forall>k. j < k \<and> k < n \<longrightarrow> fst (f k) \<noteq> fst (f j)"
  shows "map_of (rev (map f [0..<n])) (fst (f j)) = Some (snd (f j))"
proof -
  have "[0..<j + (n - j)] = [0..<j] @ [j..<j + (n - j)]"
    by (rule upt_add_eq_append) simp
  moreover have "[j..<n] = j # [Suc j..<n]"
    using assms(1) by (rule upt_conv_Cons)
  ultimately have "[0..<n] = [0..<j] @ j # [Suc j..<n]"
    using assms(1) by simp
  then have "rev (map f [0..<n]) = rev (map f [Suc j..<n]) @ f j # rev (map f [0..<j])"
    by simp
  moreover have "map_of (rev (map f [Suc j..<n])) (fst (f j)) = None"
  proof -
    have "fst (f j) \<notin> fst ` set (rev (map f [Suc j..<n]))"
    proof
      assume "fst (f j) \<in> fst ` set (rev (map f [Suc j..<n]))"
      then obtain k where "Suc j \<le> k" "k < n" "fst (f k) = fst (f j)"
        by (auto simp: image_iff)
      then show False using assms(2) by simp
    qed
    then show ?thesis by (simp add: map_of_eq_None_iff)
  qed
  ultimately show ?thesis by (simp add: map_add_def)
qed

lemma map_of_rev_absent:
  assumes "\<forall>k < n. fst (f k) \<noteq> x"
  shows "map_of (rev (map f [0..<n])) x = None"
  using assms by (auto simp: map_of_eq_None_iff)

lemma getAllHistograms_wf:
  assumes "wf_registry s"
  shows "\<exists>m s'. getAllHistograms s = Inr (m, s') \<and> wf_registry s' \<and>
     m = map_of (rev (map (\<lambda>k. (hnames s ! k, fst (extractAndReset (the (hists s ! k)))))
                       [0..<unat (curHistID s)])) \<and>
     hnames s' = hnames s \<and> hsampled s' = hsampled s \<and> bhists s' = bhists s \<and>
     curHistID s' = curHistID s \<and>
     (\<forall>k. hists s' ! k = (if k < unat (curHistID s)
                then Some (snd (extractAndReset (the (hists s ! k)))) else hists s ! k))"
proof -
  let ?n = "unat (curHistID s)"
  have w: "length (hnames s) = maxNumHists" "length (hsampled s) = maxNumHists"
     "length (hists s) = maxNumHists" "length (bhists s) = maxNumHists"
     "?n \<le> maxNumHists"
     "\<forall>i < maxNumHists. if i < ?n then registered_at s i
                          else hists s ! i = None \<and> bhists s ! i = None"
    using assms [unfolded wf_registry_iff] by blast+
  have some: "\<forall>k. 0 \<le> k \<and> k < ?n \<longrightarrow> (\<exists>h. hists s ! k = Some h)"
  proof (intro allI impI)
    fix k assume "0 \<le> k \<and> k < ?n"
    then have "registered_at s k" using w(5,6) by auto
    then show "\<exists>h. hists s ! k = Some h"
      by (auto simp: registered_at_def split: option.splits)
  qed
  obtain m s' where r: "getAllHistograms_loop 0 ?n Map.empty s = Inr (m, s')"
     "m = Map.empty ++ map_of (rev (map (\<lambda>k. (hnames s ! k, fst (extractAndReset (the (hists s ! k))))) [0..<?n]))"
     "hnames s' = hnames s" "hsampled s' = hsampled s" "bhists s' = bhists s"
     "curHistID s' = curHistID s" "length (hists s') = length (hists s)"
     "\<forall>k. hists s' ! k = (if 0 \<le> k \<and> k < ?n then Some (snd (extractAndReset (the (hists s ! k))))
                          else hists s ! k)"
    using getAllHistograms_loop_post [of ?n s 0 Map.empty] w(1,3,5) some by auto
  have "\<forall>k < maxNumHists. if k < unat (curHistID s') then registered_at s' k
                          else hists s' ! k = None \<and> bhists s' ! k = None"
  proof (intro allI impI)
    fix k assume k: "k < maxNumHists"
    show "if k < unat (curHistID s') then registered_at s' k
                          else hists s' ! k = None \<and> bhists s' ! k = None"
    proof (cases "k < ?n")
      case True
      then have "registered_at s k" using w(6) k by simp
      then show ?thesis
        using True r(3-8) by (auto simp: registered_at_def length_buf_extract split: option.splits)
    next
      case False
      then show ?thesis using w(6) k r(5,6,8) by simp
    qed
  qed
  then have "wf_registry s'" using w r(3-7) by (simp add: wf_registry_iff)
  then show ?thesis using r by (simp add: getAllHistograms_def)
qed

text \<open>
  Claim C9. In a state of the package \<open>getAllHistograms\<close> does not panic. It visits the
  registered handles \<open>0, 1, \<dots>\<close> in that order, replaces the store of each by the
  store \<open>extractAndReset\<close> leaves and enters the snapshot under the handle's name, a
  later entry replacing an earlier one of the same name: the result maps the name of a
  handle that is the last one registered under that name to the snapshot of that handle,
  and it has no entry for a name that no registered handle bears. The slots from the
  counter on are not touched.
\<close>
theorem export_aggregates_last_wins:
  assumes "wf_registry s"
  shows "\<exists>m s'. getAllHistograms s = Inr (m, s') \<and>
     m = map_of (rev (map (\<lambda>k. (hnames s ! k, fst (extractAndReset (the (hists s ! k)))))
                       [0..<unat (curHistID s)])) \<and>
     (\<forall>k < unat (curHistID s). \<exists>h. hists s ! k = Some h \<and>
         hists s' ! k = Some (snd (extractAndReset h))) \<and>
     (\<forall>k. unat (curHistID s) \<le> k \<longrightarrow> hists s' ! k = hists s ! k) \<and>
     (\<forall>j < unat (curHistID s).
         (\<forall>k. j < k \<and> k < unat (curHistID s) \<longrightarrow> hnames s ! k \<noteq> hnames s ! j) \<longrightarrow>
         (\<exists>h. hists s ! j = Some h \<and> m (hnames s ! j) = Some (fst (extractAndReset h)))) \<and>
     (\<forall>name. (\<forall>k < unat (curHistID s). hnames s ! k \<noteq> name) \<longrightarrow> m name = None)"
proof -
  let ?n = "unat (curHistID s)"
  let ?f = "\<lambda>k. (hnames s ! k, fst (extractAndReset (the (hists s ! k))))"
  obtain m s' where r: "getAllHistograms s = Inr (m, s')"
     "m = map_of (rev (map ?f [0..<?n]))"
     "\<forall>k. hists s' ! k = (if k < ?n then Some (snd (extractAndReset (the (hists s ! k))))
                          else hists s ! k)"
    using getAllHistograms_wf [OF assms] by blast
  have w: "?n \<le> maxNumHists"
     "\<forall>i < maxNumHists. if i < ?n then registered_at s i
                          else hists s ! i = None \<and> bhists s ! i = None"
    using assms [unfolded wf_registry_iff] by blast+
  have some: "\<exists>h. hists s ! k = Some h" if "k < ?n" for k
  proof -
    have "registered_at s k" using that w by auto
    then show ?thesis by (auto simp: registered_at_def split: option.splits)
  qed
  have a: "\<forall>k < ?n. \<exists>h. hists s ! k = Some h \<and> hists s' ! k = Some (snd (extractAndReset h))"
    using some r(3) by fastforce
  have b: "\<forall>k. ?n \<le> k \<longrightarrow> hists s' ! k = hists s ! k"
    using r(3) by simp
  have c: "\<forall>j < ?n. (\<forall>k. j < k \<and> k < ?n \<longrightarrow> hnames s ! k \<noteq> hnames s ! j) \<longrightarrow>
         (\<exists>h. hists s ! j = Some h \<and> m (hnames s ! j) = Some (fst (extractAndReset h)))"
  proof (intro allI impI)
    fix j assume j: "j < ?n" and last: "\<forall>k. j < k \<and> k < ?n \<longrightarrow> hnames s ! k \<noteq> hnames s ! j"
    obtain h where h: "hists s ! j = Some h" using some [OF j] by blast
    have "map_of (rev (map ?f [0..<?n])) (fst (?f j)) = Some (snd (?f j))"
      using j last by (intro map_of_rev_last) simp_all
    then show "\<exists>h. hists s ! j = Some h \<and> m (hnames s ! j) = Some (fst (extractAndReset h))"
      using h r(2) by simp
  qed
  have d: "\<forall>name. (\<forall>k < ?n. hnames s ! k \<noteq> name) \<longrightarrow> m name = None"
  proof (intro allI impI)
    fix name assume "\<forall>k < ?n. hnames s ! k \<noteq> name"
    then have "map_of (rev (map ?f [0..<?n])) name = None"
      by (intro map_of_rev_absent) simp
    then show "m name = None" using r(2) by simp
  qed
  show ?thesis using r(1,2) a b c d by blast
qed

lemma two_histograms:
  fixes v :: u64
  defines "ops \<equiv> [Add ''size'' False, Add ''size'' True, Observe 1 v]"
  shows "wf_registry (registry_after ops)"
    and "unat (curHistID (registry_after ops)) = 2"
    and "hnames (registry_after ops) ! 0 = ''size''"
    and "hnames (registry_after ops) ! 1 = ''size''"
    and "hists (registry_after ops) ! 1 = Some (newHist\<lparr> prim := observe_hdat True v newHdat \<rparr>)"
    and "bhists (registry_after ops) ! 1 = Some (newBHist\<lparr> buckets := observe_buckets v (buckets newBHist) \<rparr>)"
    and "hists (registry_after ops) ! 0 = Some newHist"
    and "run ops init_registry = Inr (registry_after ops)"
proof -
  let ?s0 = init_registry
  have c0: "unat (curHistID ?s0) < maxNumHists" "unat (curHistID ?s0) = 0"
    by (simp_all add: init_registry_def maxNumHists_def)
  obtain s1 where s1: "AddHistogram ''size'' False ?s0 = Inr (curHistID ?s0, s1)"
    "wf_registry s1" "unat (curHistID s1) = 1" "hnames s1 ! 0 = ''size''"
    "hists s1 ! 0 = Some newHist"
    using AddHistogram_wf [OF wf_init_registry c0(1), of "''size''" False] c0(2) by auto
  have c1: "unat (curHistID s1) < maxNumHists" using s1(3) by (simp add: maxNumHists_def)
  obtain s2 where s2: "AddHistogram ''size'' True s1 = Inr (curHistID s1, s2)"
    "wf_registry s2" "unat (curHistID s2) = 2" "hnames s2 ! 1 = ''size''"
    "hsampled s2 ! 1" "hists s2 ! 1 = Some newHist" "bhists s2 ! 1 = Some newBHist"
    and o2: "\<forall>i. i \<noteq> 1 \<longrightarrow> hnames s2 ! i = hnames s1 ! i \<and> hists s2 ! i = hists s1 ! i"
    using AddHistogram_wf [OF s1(2) c1, of "''size''" True] s1(3) by auto
  have u: "unat (1::u32) = 1" by simp
  have len: "unat (1::u32) < length (hists s2)"
    using s2(2) by (simp add: wf_registry_iff maxNumHists_def)
  have reg: "registered s2 1"
    using s2(2) len s2(6) [folded u] by (rule wf_registeredI)
  let ?s3 = "s2\<lparr> bhists := (bhists s2)[unat (1::u32) := Some (newBHist\<lparr> buckets := observe_buckets v (buckets newBHist) \<rparr>)],
             hists := (hists s2)[unat (1::u32) :=
                Some (newHist\<lparr> prim := observe_hdat (hsampled s2 ! unat (1::u32)) v (prim newHist) \<rparr>)] \<rparr>"
  have s3: "ObserveHist 1 v s2 = Inr ?s3"
    using reg s2(6) [folded u] s2(7) [folded u] by (rule ObserveHist_Inr)
  have wf3: "wf_registry ?s3" using s2(2) s3 by (rule ObserveHist_wf)
  have run: "run ops ?s0 = Inr ?s3"
    by (simp add: ops_def s1(1) s2(1) s3)
  then have eq: "registry_after ops = ?s3" by (simp add: registry_after_def)
  show "run ops init_registry = Inr (registry_after ops)" using run by (simp only: eq)
  have lb: "1 < length (bhists s2)" using reg by (simp add: registered_def registered_at_def)
  show "wf_registry (registry_after ops)" using wf3 by (simp only: eq)
  show "unat (curHistID (registry_after ops)) = 2" using s2(3) by (simp add: eq)
  show "hnames (registry_after ops) ! 0 = ''size''" using o2 s1(4) by (simp add: eq)
  show "hnames (registry_after ops) ! 1 = ''size''" using s2(4) by (simp add: eq)
  show "hists (registry_after ops) ! 1 = Some (newHist\<lparr> prim := observe_hdat True v newHdat \<rparr>)"
    using len s2(5) by (simp add: eq newHist_def)
  show "bhists (registry_after ops) ! 1 = Some (newBHist\<lparr> buckets := observe_buckets v (buckets newBHist) \<rparr>)"
    using lb by (simp add: eq)
  show "hists (registry_after ops) ! 0 = Some newHist"
    using o2 s1(5) by (simp add: eq)
qed

theorem export_aggregates_last_wins_witness:
  "\<exists>m s'. getAllHistograms
      (registry_after [Add ''size'' False, Add ''size'' True, Observe 1 5]) = Inr (m, s') \<and>
    map_option count (m ''size'') = Some 1"
proof -
  let ?s = "registry_after [Add ''size'' False, Add ''size'' True, Observe 1 5]"
  note f = two_histograms [of 5]
  obtain m s' where r: "getAllHistograms ?s = Inr (m, s')"
    and last: "\<forall>j < unat (curHistID ?s).
         (\<forall>k. j < k \<and> k < unat (curHistID ?s) \<longrightarrow> hnames ?s ! k \<noteq> hnames ?s ! j) \<longrightarrow>
         (\<exists>h. hists ?s ! j = Some h \<and> m (hnames ?s ! j) = Some (fst (extractAndReset h)))"
    using export_aggregates_last_wins [OF f(1)] by blast
  have "\<exists>h. hists ?s ! 1 = Some h \<and> m (hnames ?s ! 1) = Some (fst (extractAndReset h))"
  proof -
    have j: "1 < unat (curHistID ?s)" using f(2) by simp
    have none: "\<forall>k. 1 < k \<and> k < unat (curHistID ?s) \<longrightarrow> hnames ?s ! k \<noteq> hnames ?s ! 1"
      using f(2) by auto
    show ?thesis using last j none by blast
  qed
  then have "m ''size'' = Some (observe_hdat True 5 newHdat)"
    using f(4,5) by (simp add: extract_fst)
  then have "map_option count (m ''size'') = Some 1"
    by (simp add: observe_hdat_def Let_def newHdat_fields)
  then show ?thesis using r by blast
qed

subsection \<open>The invariant of the aggregate buffers\<close>

lemma unat_succ_u64: "unat (c::u64) < 2 ^ 64 - 1 \<Longrightarrow> unat (c + 1) = unat c + 1"
  by (simp add: unat_word_ariths)

lemma hdat_inv_observe:
  assumes "hdat_inv p" and "unat (count p) < 2 ^ 64 - 1"
  shows "hdat_inv (observe_hdat sm v p)"
    and "unat (count (observe_hdat sm v p)) = unat (count p) + 1"
proof -
  have c: "unat (count p + 1) = unat (count p) + 1"
    using assms(2) by (rule unat_succ_u64)
  then have pos: "count p + 1 \<noteq> 0" by (metis Suc_eq_plus1 nat.distinct(1) unat_0)
  have k: "kept p \<le> count p" using assms(1) by (simp add: hdat_inv_def)
  have lt: "count p \<le> count p + 1" using c by (simp add: word_le_nat_alt)
  have k1: "kept p \<le> count p + 1" using k lt by (rule order_trans)
  have "unat (kept p) \<le> unat (count p)" using k by (simp add: word_le_nat_alt)
  then have "unat (kept p) < 2 ^ 64 - 1" using assms(2) by simp
  then have "unat (kept p + 1) = unat (kept p) + 1" by (rule unat_succ_u64)
  then have k2: "kept p + 1 \<le> count p + 1"
    using c \<open>unat (kept p) \<le> unat (count p)\<close> by (simp add: word_le_nat_alt)
  have mm: "min (min_v p) v \<le> max (max_v p) v"
    by (simp add: min.coboundedI2 max.coboundedI2)
  show "hdat_inv (observe_hdat sm v p)"
    using pos k1 k2 mm by (simp add: hdat_inv_def observe_hdat_def Let_def)
  show "unat (count (observe_hdat sm v p)) = unat (count p) + 1"
    using c by (simp add: observe_hdat_def Let_def)
qed

lemma hdat_inv_extract:
  assumes "hdat_inv (prim h)"
  shows "hdat_inv (prim (snd (extractAndReset h)))" and "hdat_inv (sec (snd (extractAndReset h)))"
    and "count (prim (snd (extractAndReset h))) = 0"
  using assms by (simp_all add: extractAndReset_def Let_def hdat_inv_def)

lemma hdat_inv_newHdat: "hdat_inv newHdat"
  by (simp add: hdat_inv_def newHdat_def)

lemma list_all_update: "list_all P xs \<Longrightarrow> P x \<Longrightarrow> list_all P (xs[i := x])"
  using set_update_subset_insert [of xs i x] by (auto simp: list_all_iff)

lemma stores_inv_update:
  assumes "stores_inv s" and "hdat_inv (prim h)" and "hdat_inv (sec h)"
  shows "stores_inv (s\<lparr> hists := (hists s)[i := Some h] \<rparr>)"
  using assms by (simp add: stores_inv_def list_all_update)

lemma stores_invD:
  "stores_inv s \<Longrightarrow> i < length (hists s) \<Longrightarrow> hists s ! i = Some h \<Longrightarrow>
   hdat_inv (prim h) \<and> hdat_inv (sec h)"
  by (auto simp: stores_inv_def list_all_length split: option.splits)

lemma stores_inv_cong:
  "hists s' = hists s \<Longrightarrow> stores_inv s' = stores_inv s"
  by (simp add: stores_inv_def)

lemma stores_inv_init: "stores_inv init_registry"
  by (simp add: stores_inv_def init_registry_def list_all_iff)

lemma wf_one_histogram: "wf_registry (one_histogram name sampled)"
proof -
  have c0: "unat (curHistID init_registry) < maxNumHists"
    by (simp add: init_registry_def maxNumHists_def)
  obtain s1 where "AddHistogram name sampled init_registry = Inr (curHistID init_registry, s1)"
    "wf_registry s1"
    using AddHistogram_wf [OF wf_init_registry c0, of name sampled] by blast
  then show ?thesis by (simp add: AddHistogram_init)
qed

lemma step_wf:
  assumes "wf_registry s" and "step x s = Inr s'"
  shows "wf_registry s'"
proof (cases x)
  case (Add name sampled)
  have lt: "unat (curHistID s) < maxNumHists"
    using assms(2) Add by (auto simp: AddHistogram_eq split: if_splits)
  obtain s1 where "AddHistogram name sampled s = Inr (curHistID s, s1)" "wf_registry s1"
    using AddHistogram_wf [OF assms(1) lt, of name sampled] by blast
  then show ?thesis using assms(2) Add by simp
next
  case (Observe hid v)
  then have "ObserveHist hid v s = Inr s'" using assms(2) by simp
  with assms(1) show ?thesis by (rule ObserveHist_wf(1))
next
  case (Extract hid)
  then obtain h where o: "unat hid < length (hists s)" "hists s ! unat hid = Some h"
    and s': "s' = s\<lparr> hists := (hists s)[unat hid := Some (snd (extractAndReset h))] \<rparr>"
    using assms(2) by (auto split: if_splits option.splits)
  show ?thesis unfolding s' using assms(1) o(2,1) by (rule wf_update_hist)
next
  case GetAll
  obtain m s1 where "getAllHistograms s = Inr (m, s1)" "wf_registry s1"
    using getAllHistograms_wf [OF assms(1)] by blast
  then show ?thesis using assms(2) GetAll by simp
next
  case GetAllBuckets
  then have "s' = s" using assms(2) by (auto split: sum.splits)
  then show ?thesis using assms(1) by simp
qed

lemma run_wf:
  "wf_registry s \<Longrightarrow> run ops s = Inr s' \<Longrightarrow> wf_registry s'"
proof (induction ops arbitrary: s)
  case Nil
  then show ?case by simp
next
  case (Cons x xs)
  obtain s1 where s1: "step x s = Inr s1" "run xs s1 = Inr s'"
    using Cons.prems(2) by (auto split: sum.splits)
  have "wf_registry s1" using Cons.prems(1) s1(1) by (rule step_wf)
  then show ?case using s1(2) by (rule Cons.IH)
qed

lemma interval_counts_update:
  "interval_counts (s\<lparr> hists := (hists s)[i := Some h] \<rparr>) k =
     (if k = i \<and> i < length (hists s) then unat (count (prim h)) else interval_counts s k)"
  by (auto simp: interval_counts_def)

lemma interval_counts_hists:
  "hists s' = hists s \<Longrightarrow> interval_counts s' = interval_counts s"
  by (simp add: interval_counts_def fun_eq_iff)

lemma interval_counts_Some:
  "i < length (hists s) \<Longrightarrow> hists s ! i = Some h \<Longrightarrow> interval_counts s i = unat (count (prim h))"
  by (simp add: interval_counts_def)

lemma getAllHistograms_loop_stores_inv:
  "getAllHistograms_loop i n ret s = Inr (m, s') \<Longrightarrow> stores_inv s \<Longrightarrow> stores_inv s'"
proof (induction i n ret s rule: getAllHistograms_loop.induct)
  case (1 i n ret s)
  show ?case
  proof (cases "i < n")
    case False
    then have "s' = s" using "1.prems"(1) by (subst (asm) getAllHistograms_loop.simps) simp
    then show ?thesis using "1.prems" by simp
  next
    case True
    have bounds: "\<not> (length (hnames s) \<le> i \<or> length (hists s) \<le> i)"
      using "1.prems"(1) True by (subst (asm) getAllHistograms_loop.simps) (auto split: if_splits)
    then obtain h where h: "hists s ! i = Some h"
      using "1.prems"(1) True
      by (subst (asm) getAllHistograms_loop.simps) (cases "hists s ! i"; simp)
    let ?r = "extractAndReset h"
    let ?s1 = "s\<lparr> hists := (hists s)[i := Some (snd ?r)] \<rparr>"
    have step: "getAllHistograms_loop (i + 1) n (ret(hnames s ! i \<mapsto> fst ?r)) ?s1 = Inr (m, s')"
      using "1.prems"(1) True bounds h
      by (subst (asm) getAllHistograms_loop.simps) (simp add: Let_def)
    have hi: "hdat_inv (prim h)" using stores_invD [OF "1.prems"(2) _ h] bounds by simp
    have a: "stores_inv ?s1"
      using "1.prems"(2) hdat_inv_extract(1,2) [OF hi] by (rule stores_inv_update)
    show ?thesis using "1.IH" [OF True bounds h refl step a] .
  qed
qed

lemma step_intervals:
  assumes "wf_registry s" and "stores_inv s" and "\<forall>k. interval_counts s k \<le> g k"
    and "observation_fits g x" and "step x s = Inr s'"
  shows "stores_inv s' \<and> (\<forall>k. interval_counts s' k \<le> next_intervals x g k)"
proof (cases x)
  case (Add name sampled)
  then have s': "s' = s\<lparr> hnames := (hnames s)[unat (curHistID s) := name],
                hsampled := (hsampled s)[unat (curHistID s) := sampled],
                hists := (hists s)[unat (curHistID s) := Some newHist],
                bhists := (bhists s)[unat (curHistID s) := Some newBHist],
                curHistID := curHistID s + 1 \<rparr>"
    using assms(5) by (auto simp: AddHistogram_eq split: if_splits)
  let ?s1 = "s\<lparr> hists := (hists s)[unat (curHistID s) := Some newHist] \<rparr>"
  have h: "hists s' = hists ?s1" by (simp add: s')
  have "stores_inv ?s1"
    using assms(2) by (rule stores_inv_update) (simp_all add: newHist_def hdat_inv_newHdat)
  then have a: "stores_inv s'" using h by (simp add: stores_inv_def)
  have "interval_counts ?s1 k \<le> g k" for k
    using assms(3) by (simp add: interval_counts_update newHist_def newHdat_fields)
  then have "\<forall>k. interval_counts s' k \<le> g k"
    by (simp add: interval_counts_hists [OF h])
  then show ?thesis using a Add by simp
next
  case (Observe hid v)
  then have "ObserveHist hid v s = Inr s'" using assms(5) by simp
  then obtain h b where o: "unat hid < length (hists s)" "hists s ! unat hid = Some h"
    and s': "s' = s\<lparr> bhists := (bhists s)[unat hid := Some (b\<lparr> buckets := observe_buckets v (buckets b) \<rparr>)],
             hists := (hists s)[unat hid :=
                Some (h\<lparr> prim := observe_hdat (hsampled s ! unat hid) v (prim h) \<rparr>)] \<rparr>"
    by (rule ObserveHist_InrD)
  let ?h = "h\<lparr> prim := observe_hdat (hsampled s ! unat hid) v (prim h) \<rparr>"
  let ?s1 = "s\<lparr> hists := (hists s)[unat hid := Some ?h] \<rparr>"
  have hs: "hists s' = hists ?s1" by (simp add: s')
  have hi: "hdat_inv (prim h)" "hdat_inv (sec h)" using stores_invD [OF assms(2) o] by simp_all
  have "interval_counts s (unat hid) \<le> g (unat hid)" using assms(3) by (rule spec)
  then have cg: "unat (count (prim h)) \<le> g (unat hid)"
    by (simp only: interval_counts_Some [OF o])
  moreover have fit: "g (unat hid) + 1 < 2 ^ 64" using assms(4) Observe by simp
  ultimately have lt: "unat (count (prim h)) < 2 ^ 64 - 1" by simp
  note ob = hdat_inv_observe [OF hi(1) lt, of "hsampled s ! unat hid" v]
  have "stores_inv ?s1"
    using assms(2) by (rule stores_inv_update) (simp_all add: ob(1) hi(2))
  then have a: "stores_inv s'" using hs by (simp add: stores_inv_def)
  have "interval_counts ?s1 k \<le> (g(unat hid := g (unat hid) + 1)) k" for k
    using assms(3) cg o(1)
    by (simp add: interval_counts_update ob(2))
  then have "\<forall>k. interval_counts s' k \<le> (g(unat hid := g (unat hid) + 1)) k"
    by (simp add: interval_counts_hists [OF hs])
  then show ?thesis using a Observe by simp
next
  case (Extract hid)
  then obtain h where o: "unat hid < length (hists s)" "hists s ! unat hid = Some h"
    and s': "s' = s\<lparr> hists := (hists s)[unat hid := Some (snd (extractAndReset h))] \<rparr>"
    using assms(5) by (auto split: if_splits option.splits)
  have hi: "hdat_inv (prim h)" using stores_invD [OF assms(2) o] by simp
  have a: "stores_inv s'"
    unfolding s' using assms(2) hdat_inv_extract(1,2) [OF hi] by (rule stores_inv_update)
  have "\<forall>k. interval_counts s' k \<le> (g(unat hid := 0)) k"
    using assms(3) o(1) by (simp add: s' interval_counts_update hdat_inv_extract(3) [OF hi])
  then show ?thesis using a Extract by simp
next
  case GetAll
  let ?n = "unat (curHistID s)"
  obtain m s1 where r: "getAllHistograms s = Inr (m, s1)" "wf_registry s1"
    "\<forall>k. hists s1 ! k = (if k < ?n then Some (snd (extractAndReset (the (hists s ! k))))
                          else hists s ! k)"
    using getAllHistograms_wf [OF assms(1)] by blast
  have eq: "s' = s1" using assms(5) GetAll r(1) by simp
  have "getAllHistograms_loop 0 ?n Map.empty s = Inr (m, s1)"
    using r(1) by (simp add: getAllHistograms_def)
  then have a: "stores_inv s1" using assms(2) by (rule getAllHistograms_loop_stores_inv)
  have w: "length (hists s) = maxNumHists"
     "\<forall>i < maxNumHists. if i < ?n then registered_at s i
                          else hists s ! i = None \<and> bhists s ! i = None"
    using assms(1) [unfolded wf_registry_iff] by blast+
  have l1: "length (hists s1) = maxNumHists" using r(2) by (simp add: wf_registry_iff)
  have "interval_counts s1 k = 0" for k
  proof (cases "k < maxNumHists")
    case False
    then show ?thesis using l1 by (simp add: interval_counts_def)
  next
    case True
    show ?thesis
    proof (cases "k < ?n")
      case True
      then have "hists s1 ! k = Some (snd (extractAndReset (the (hists s ! k))))"
        using r(3) by simp
      then show ?thesis
        by (simp add: interval_counts_def extractAndReset_def Let_def)
    next
      case False
      then have "hists s1 ! k = None" using r(3) w(2) True by simp
      then show ?thesis by (simp add: interval_counts_def)
    qed
  qed
  then show ?thesis using a eq GetAll by simp
next
  case GetAllBuckets
  then have "s' = s" using assms(5) by (auto split: sum.splits)
  then show ?thesis using assms(2,3) GetAllBuckets by simp
qed

lemma run_intervals:
  "wf_registry s \<Longrightarrow> stores_inv s \<Longrightarrow> \<forall>k. interval_counts s k \<le> g k \<Longrightarrow>
   intervals_below g ops \<Longrightarrow> run ops s = Inr s' \<Longrightarrow> stores_inv s'"
proof (induction ops arbitrary: s g)
  case Nil
  then show ?case by simp
next
  case (Cons x xs)
  obtain s1 where s1: "step x s = Inr s1" "run xs s1 = Inr s'"
    using Cons.prems(5) by (auto split: sum.splits)
  have f: "observation_fits g x" "intervals_below (next_intervals x g) xs"
    using Cons.prems(4) by simp_all
  have w1: "wf_registry s1" using Cons.prems(1) s1(1) by (rule step_wf)
  have i1: "stores_inv s1" "\<forall>k. interval_counts s1 k \<le> next_intervals x g k"
    using step_intervals [OF Cons.prems(1,2,3) f(1) s1(1)] by simp_all
  show ?case using Cons.IH [OF w1 i1 f(2) s1(2)] .
qed

lemma run_extracts:
  "wf_registry s \<Longrightarrow> unat hid < unat (curHistID s) \<Longrightarrow>
   \<exists>s'. run (replicate n (Extract hid)) s = Inr s' \<and> wf_registry s' \<and>
        curHistID s' = curHistID s"
proof (induction n arbitrary: s)
  case 0
  then show ?case by simp
next
  case (Suc n)
  have w: "length (hists s) = maxNumHists" "unat (curHistID s) \<le> maxNumHists"
     "\<forall>i < maxNumHists. if i < unat (curHistID s) then registered_at s i
                          else hists s ! i = None \<and> bhists s ! i = None"
    using Suc.prems(1) [unfolded wf_registry_iff] by blast+
  have len: "unat hid < length (hists s)" using Suc.prems(2) w(1,2) by simp
  have "registered_at s (unat hid)" using w(3) Suc.prems(2) len w(1) by simp
  then obtain h where h: "hists s ! unat hid = Some h"
    by (auto simp: registered_at_def split: option.splits)
  let ?s1 = "s\<lparr> hists := (hists s)[unat hid := Some (snd (extractAndReset h))] \<rparr>"
  have st: "step (Extract hid) s = Inr ?s1" using len h by simp
  have w1: "wf_registry ?s1" using Suc.prems(1) h len by (rule wf_update_hist)
  have c1: "unat hid < unat (curHistID ?s1)" using Suc.prems(2) by simp
  obtain s' where "run (replicate n (Extract hid)) ?s1 = Inr s'" "wf_registry s'"
    "curHistID s' = curHistID ?s1"
    using Suc.IH [OF w1 c1] by blast
  then show ?case using st by simp
qed

lemma interval_counts_init: "interval_counts init_registry k = 0"
  by (simp add: interval_counts_def init_registry_def)

lemma intervals_below_extracts: "intervals_below g (replicate n (Extract hid))"
  by (induction n arbitrary: g) simp_all

text \<open>
  Claim C7, as amended. In a state of the package let every aggregate buffer satisfy the
  invariant (\<open>kept \<le> count\<close>; \<open>min \<le> max\<close> when \<open>count > 0\<close>; \<open>min\<close> at its sentinel
  and \<open>max = 0\<close> when \<open>count = 0\<close>). Then after every run of operations (observations
  and extractions on any handles, and also registrations and exports) that does not panic
  and in which no interval of any handle receives \<open>2^64\<close> or more observations, the
  observations its buffer has already counted included, every aggregate buffer satisfies
  the invariant again. Nothing bounds the length of the run or the number of intervals.
\<close>

theorem invariant_preserved_below_overflow:
  assumes "wf_registry s" and "stores_inv s"
    and "intervals_below (interval_counts s) ops" and "run ops s = Inr s'"
  shows "stores_inv s'"
  using run_intervals [OF assms(1,2) _ assms(3,4)] by simp

theorem invariant_preserved_below_overflow_witness:
  "(wf_registry init_registry \<and> stores_inv init_registry \<and>
    intervals_below (interval_counts init_registry)
      [Add ''size'' False, Add ''size'' True, Observe 1 5] \<and>
    run [Add ''size'' False, Add ''size'' True, Observe 1 5] init_registry =
      Inr (registry_after [Add ''size'' False, Add ''size'' True, Observe 1 5]) \<and>
    stores_inv (registry_after [Add ''size'' False, Add ''size'' True, Observe 1 5])) \<and>
   (\<exists>s'. run (Add ''size'' False # replicate (2 ^ 64) (Extract 0)) init_registry = Inr s' \<and>
      stores_inv s')"
proof -
  let ?ops = "[Add ''size'' False, Add ''size'' True, Observe 1 5]"
  have g: "interval_counts init_registry = (\<lambda>k. 0)"
    by (simp add: fun_eq_iff interval_counts_init)
  have n: "intervals_below (interval_counts init_registry) ?ops"
    unfolding g by simp
  have r: "run ?ops init_registry = Inr (registry_after ?ops)"
    by (rule two_histograms(8))
  have A: "wf_registry init_registry \<and> stores_inv init_registry \<and>
    intervals_below (interval_counts init_registry) ?ops \<and>
    run ?ops init_registry = Inr (registry_after ?ops) \<and>
    stores_inv (registry_after ?ops)"
    using invariant_preserved_below_overflow [OF wf_init_registry stores_inv_init n r]
      wf_init_registry stores_inv_init n r by simp
  let ?s = "one_histogram ''size'' False"
  let ?xs = "Add ''size'' False # replicate (2 ^ 64) (Extract 0)"
  have c: "unat (0::u32) < unat (curHistID ?s)" by (simp add: one_histogram_facts(6))
  obtain s' where s': "run (replicate (2 ^ 64) (Extract 0)) ?s = Inr s'"
    using run_extracts [OF wf_one_histogram c, of "2 ^ 64"] by blast
  have r2: "run ?xs init_registry = Inr s'"
    using s' by (simp add: AddHistogram_init)
  have n2: "intervals_below (interval_counts init_registry) ?xs"
    unfolding g by (simp add: intervals_below_extracts)
  have B: "\<exists>s'. run ?xs init_registry = Inr s' \<and> stores_inv s'"
    using invariant_preserved_below_overflow [OF wf_init_registry stores_inv_init n2 r2] r2
    by blast
  show ?thesis using A B by (rule conjI)
qed

text \<open>The claim as stated has no bound on the observations of an interval. The count is a 64-bit number:
  \<open>2^64\<close> observations of the value 1 bring it back to 0, and the snapshot then has
  \<open>count = 0\<close> with \<open>min = max = 1\<close>.\<close>

theorem invariant_overflow_counterexample:
  "map_sum id summary (scenario ''latency'' False (replicate (2 ^ 64) 1)) = Inr (0, 0, 0, 1, 1) \<and>
   map_sum id hdat_inv (scenario ''latency'' False (replicate (2 ^ 64) 1)) = Inr False"
proof -
  let ?p = "fold (observe_hdat False) (replicate (2 ^ 64) 1) newHdat"
  have s: "summary ?p = (0, 0, 0, 1, 1)"
    by (simp only: summary_fold [OF newHdat_fields(1)])
      (simp add: newHdat_fields retained_unsampled MaxUint64_def sum_list_replicate)
  then have "count ?p = 0" "max_v ?p = 1" by (simp_all add: summary_def)
  then have "\<not> hdat_inv ?p" by (simp add: hdat_inv_def)
  then show ?thesis using s by (simp add: scenario_eq)
qed

subsection \<open>The bucket histograms\<close>

lemma getAllBucketHistograms_loop_post:
  assumes "n \<le> length (hnames s)" and "n \<le> length (bhists s)" and "i \<le> n"
    and "\<forall>k. i \<le> k \<and> k < n \<longrightarrow> (\<exists>b. bhists s ! k = Some b \<and> length (buckets b) = 65)"
  shows "getAllBucketHistograms_loop i n ret s =
     Inr (ret ++ map_of (rev (map (\<lambda>k. (hnames s ! k, buckets (the (bhists s ! k)))) [i..<n])))"
  using assms
proof (induction i n ret s rule: getAllBucketHistograms_loop.induct)
  case (1 i n ret s)
  show ?case
  proof (cases "i < n")
    case False
    then have "i = n" using "1.prems" by simp
    then show ?thesis by (subst getAllBucketHistograms_loop.simps) simp
  next
    case True
    obtain b where b: "bhists s ! i = Some b" "length (buckets b) = 65"
      using True "1.prems"(4) by auto
    let ?f = "\<lambda>k. (hnames s ! k, buckets (the (bhists s ! k)))"
    let ?ret1 = "ret(hnames s ! i \<mapsto> buckets b)"
    have bounds: "\<not> (length (hnames s) \<le> i \<or> length (bhists s) \<le> i)"
      using True "1.prems"(1,2) by simp
    have e: "extractBHist b = Inr (buckets b)" using b(2) by (rule extractBHist_eq)
    have step: "getAllBucketHistograms_loop i n ret s = getAllBucketHistograms_loop (i + 1) n ?ret1 s"
      using True bounds b(1) e by (subst getAllBucketHistograms_loop.simps) simp
    have p: "i + 1 \<le> n"
      "\<forall>k. i + 1 \<le> k \<and> k < n \<longrightarrow> (\<exists>b. bhists s ! k = Some b \<and> length (buckets b) = 65)"
      using True "1.prems"(4) by simp_all
    have ih: "getAllBucketHistograms_loop (i + 1) n ?ret1 s =
        Inr (?ret1 ++ map_of (rev (map ?f [i + 1..<n])))"
      using "1.IH" [OF True bounds b(1) e "1.prems"(1,2) p] .
    have upt: "[i..<n] = i # [i + 1..<n]" using True by (simp add: upt_conv_Cons)
    have r1: "?ret1 = ret ++ map_of [?f i]" using b(1) by (simp add: map_add_def fun_eq_iff)
    have "?ret1 ++ map_of (rev (map ?f [i + 1..<n])) =
        (ret ++ map_of [?f i]) ++ map_of (rev (map ?f [i + 1..<n]))"
      by (simp only: r1)
    also have "\<dots> = ret ++ map_of (rev (map ?f [i..<n]))"
      unfolding upt by (simp only: list.map rev.simps map_of_append map_add_assoc)
    finally show ?thesis using step ih by simp
  qed
qed

lemma getAllBucketHistograms_wf:
  assumes "wf_registry s"
  shows "getAllBucketHistograms s =
     Inr (map_of (rev (map (\<lambda>k. (hnames s ! k, buckets (the (bhists s ! k))))
                       [0..<unat (curHistID s)])))"
proof -
  let ?n = "unat (curHistID s)"
  have w: "length (hnames s) = maxNumHists" "length (bhists s) = maxNumHists"
     "?n \<le> maxNumHists"
     "\<forall>i < maxNumHists. if i < ?n then registered_at s i
                          else hists s ! i = None \<and> bhists s ! i = None"
    using assms [unfolded wf_registry_iff] by blast+
  have some: "\<forall>k. 0 \<le> k \<and> k < ?n \<longrightarrow> (\<exists>b. bhists s ! k = Some b \<and> length (buckets b) = 65)"
  proof (intro allI impI)
    fix k assume "0 \<le> k \<and> k < ?n"
    then have "registered_at s k" using w(3,4) by auto
    then show "\<exists>b. bhists s ! k = Some b \<and> length (buckets b) = 65"
      by (auto simp: registered_at_def split: option.splits)
  qed
  show ?thesis
    using getAllBucketHistograms_loop_post [of ?n s 0 Map.empty] w(1,2,3) some
    by (simp add: getAllBucketHistograms_def)
qed

lemma fold_observe_buckets_replicate:
  "lzcnt v < length bs \<Longrightarrow>
   fold observe_buckets (replicate n v) bs ! lzcnt v = bs ! lzcnt v + of_nat n"
proof (induction n arbitrary: bs)
  case 0
  then show ?case by simp
next
  case (Suc n)
  have l: "lzcnt v < length (observe_buckets v bs)"
    using Suc.prems by (simp add: observe_buckets_def)
  have a: "observe_buckets v bs ! lzcnt v = bs ! lzcnt v + 1"
    using Suc.prems by (simp add: observe_buckets_def)
  have "fold observe_buckets (replicate (Suc n) v) bs ! lzcnt v =
      fold observe_buckets (replicate n v) (observe_buckets v bs) ! lzcnt v"
    by (simp only: replicate.simps fold.simps o_apply)
  also have "\<dots> = observe_buckets v bs ! lzcnt v + of_nat n"
    using l by (rule Suc.IH)
  also have "\<dots> = bs ! lzcnt v + of_nat (Suc n)"
    unfolding a by simp
  finally show ?case .
qed

lemma length_fold_observe_buckets: "length (fold observe_buckets vs bs) = length bs"
  by (induction vs arbitrary: bs) (simp_all add: observe_buckets_def)

lemma slot_cases_iff:
  "(case x of None \<Rightarrow> True | Some b \<Rightarrow> (case y of None \<Rightarrow> False | Some b' \<Rightarrow> Q b b')) \<longleftrightarrow>
   (\<forall>b. x = Some b \<longrightarrow> (\<exists>b'. y = Some b' \<and> Q b b'))"
  by (cases x; cases y; simp)

lemma buckets_mono_iff:
  "buckets_mono s s' \<longleftrightarrow>
     length (bhists s') = length (bhists s) \<and>
     (\<forall>k < length (bhists s). \<forall>b. bhists s ! k = Some b \<longrightarrow>
        (\<exists>b'. bhists s' ! k = Some b' \<and> length (buckets b') = length (buckets b) \<and>
           (\<forall>j < length (buckets b). buckets b ! j \<le> buckets b' ! j)))"
  by (simp add: buckets_mono_def list_all_length slot_cases_iff)

lemma buckets_mono_refl: "buckets_mono s s"
  by (simp add: buckets_mono_iff)

lemma buckets_mono_same: "bhists s' = bhists s \<Longrightarrow> buckets_mono s s'"
  by (simp add: buckets_mono_iff)

lemma buckets_mono_trans:
  assumes "buckets_mono s s1" and "buckets_mono s1 s2"
  shows "buckets_mono s s2"
  unfolding buckets_mono_iff
proof (intro conjI allI impI)
  show "length (bhists s2) = length (bhists s)"
    using assms by (simp add: buckets_mono_iff)
next
  fix k b assume k: "k < length (bhists s)" and b: "bhists s ! k = Some b"
  obtain b1 where b1: "bhists s1 ! k = Some b1" "length (buckets b1) = length (buckets b)"
    "\<forall>j < length (buckets b). buckets b ! j \<le> buckets b1 ! j"
    using assms(1) k b unfolding buckets_mono_iff by blast
  have k1: "k < length (bhists s1)" using assms(1) k by (simp add: buckets_mono_iff)
  obtain b2 where b2: "bhists s2 ! k = Some b2" "length (buckets b2) = length (buckets b1)"
    "\<forall>j < length (buckets b1). buckets b1 ! j \<le> buckets b2 ! j"
    using assms(2) k1 b1(1) unfolding buckets_mono_iff by blast
  have "\<forall>j < length (buckets b). buckets b ! j \<le> buckets b2 ! j"
  proof (intro allI impI)
    fix j assume j: "j < length (buckets b)"
    have "buckets b ! j \<le> buckets b1 ! j" using b1(3) j by simp
    moreover have "buckets b1 ! j \<le> buckets b2 ! j" using b2(3) j b1(2) by simp
    ultimately show "buckets b ! j \<le> buckets b2 ! j" by (rule order_trans)
  qed
  then show "\<exists>b'. bhists s2 ! k = Some b' \<and> length (buckets b') = length (buckets b) \<and>
           (\<forall>j < length (buckets b). buckets b ! j \<le> buckets b' ! j)"
    using b2(1,2) b1(2) by simp
qed

lemma scenario_bucket_eq:
  assumes "j < 65"
  shows "scenario_bucket name sampled vs j = Inr (fold observe_buckets vs (replicate 65 0) ! j)"
proof -
  let ?s = "one_histogram name sampled"
  let ?b = "newBHist\<lparr> buckets := fold observe_buckets vs (buckets newBHist) \<rparr>"
  let ?h = "newHist\<lparr> prim := fold (observe_hdat sampled) vs (prim newHist) \<rparr>"
  let ?s' = "?s\<lparr> bhists := (bhists ?s)[0 := Some ?b], hists := (hists ?s)[0 := Some ?h] \<rparr>"
  note f = one_histogram_facts [of name sampled]
  have run: "ObserveAll 0 vs ?s = Inr ?s'"
    using ObserveAll_Inr [OF f(1-3), of vs] by (simp add: f(4) [simplified])
  have lb: "length (buckets ?b) = 65"
    by (simp add: length_fold_observe_buckets newBHist_def)
  have c: "unat (curHistID ?s) = 1" by (simp add: f(6))
  have wf: "wf_registry ?s'"
    using wf_one_histogram
    by (rule wf_update_slot) (simp_all add: c length_fold_observe_buckets newBHist_def
        newHist_def newHdat_buf fresh_buf(1) [OF fresh_newHdat] length_write_all)
  have len: "0 < length (bhists ?s)" "0 < length (hnames ?s)"
    using f(1) by (simp_all add: registered_def registered_at_def)
  have nm: "hnames ?s ! 0 = name" using f(5) by simp
  have "getAllBucketHistograms ?s' = Inr (map_of [(name, buckets ?b)])"
    using len nm by (simp add: getAllBucketHistograms_wf [OF wf] c)
  then show ?thesis
    using assms lb by (simp add: scenario_bucket_def AddHistogram_init run newBHist_def)
qed

lemma bucket_counts_update:
  "bucket_counts (s\<lparr> bhists := (bhists s)[i := Some b] \<rparr>) k j =
     (if k = i \<and> i < length (bhists s)
      then (if j < length (buckets b) then unat (buckets b ! j) else 0)
      else bucket_counts s k j)"
  by (auto simp: bucket_counts_def)

lemma bucket_counts_bhists:
  "bhists s' = bhists s \<Longrightarrow> bucket_counts s' = bucket_counts s"
  by (simp add: bucket_counts_def fun_eq_iff)

lemma bucket_counts_Some:
  "k < length (bhists s) \<Longrightarrow> bhists s ! k = Some b \<Longrightarrow> j < length (buckets b) \<Longrightarrow>
   bucket_counts s k j = unat (buckets b ! j)"
  by (simp add: bucket_counts_def)

lemma bucket_counts_same_slot:
  "length (bhists s') = length (bhists s) \<Longrightarrow> bhists s' ! k = bhists s ! k \<Longrightarrow>
   bucket_counts s' k j = bucket_counts s k j"
  by (simp add: bucket_counts_def)

lemma step_increments:
  assumes "wf_registry s" and "\<forall>k j. bucket_counts s k j \<le> g k j"
    and "increment_fits g x" and "step x s = Inr s'"
  shows "buckets_mono s s' \<and> (\<forall>k j. bucket_counts s' k j \<le> next_increments x g k j)"
proof (cases x)
  case (Add name sampled)
  have lt: "unat (curHistID s) < maxNumHists"
    using assms(4) Add by (auto simp: AddHistogram_eq split: if_splits)
  obtain s1 where s1: "AddHistogram name sampled s = Inr (curHistID s, s1)" "wf_registry s1"
    "bhists s1 ! unat (curHistID s) = Some newBHist"
    and o: "\<forall>i. i \<noteq> unat (curHistID s) \<longrightarrow> bhists s1 ! i = bhists s ! i"
    using AddHistogram_wf [OF assms(1) lt, of name sampled] by blast
  have eq: "s' = s1" using assms(4) Add s1(1) by simp
  have len: "length (bhists s1) = length (bhists s)"
    using assms(1) s1(2) by (simp add: wf_registry_iff)
  have none: "bhists s ! unat (curHistID s) = None"
    using assms(1) lt unfolding wf_registry_iff by auto
  have m: "buckets_mono s s1"
    unfolding buckets_mono_iff
  proof (intro conjI allI impI)
    show "length (bhists s1) = length (bhists s)" by (rule len)
  next
    fix k b assume k: "k < length (bhists s)" and b: "bhists s ! k = Some b"
    then have "k \<noteq> unat (curHistID s)" using none by auto
    then have "bhists s1 ! k = Some b" using o b by simp
    then show "\<exists>b'. bhists s1 ! k = Some b' \<and> length (buckets b') = length (buckets b) \<and>
           (\<forall>j < length (buckets b). buckets b ! j \<le> buckets b' ! j)"
      by simp
  qed
  have "bucket_counts s1 k j \<le> g k j" for k j
  proof (cases "k = unat (curHistID s)")
    case True
    then have "bucket_counts s1 k j = 0"
      using s1(3) by (simp add: bucket_counts_def newBHist_def)
    then show ?thesis by simp
  next
    case False
    then have "bucket_counts s1 k j = bucket_counts s k j"
      using o len by (intro bucket_counts_same_slot) simp_all
    then show ?thesis using assms(2) by simp
  qed
  then show ?thesis using m eq Add by simp
next
  case (Observe hid v)
  then have run: "ObserveHist hid v s = Inr s'" using assms(4) by simp
  then obtain h b where o: "unat hid < length (hists s)" "hists s ! unat hid = Some h"
    "unat hid < length (bhists s)" "bhists s ! unat hid = Some b"
    and s': "s' = s\<lparr> bhists := (bhists s)[unat hid := Some (b\<lparr> buckets := observe_buckets v (buckets b) \<rparr>)],
             hists := (hists s)[unat hid :=
                Some (h\<lparr> prim := observe_hdat (hsampled s ! unat hid) v (prim h) \<rparr>)] \<rparr>"
    by (rule ObserveHist_InrD)
  let ?l = "lzcnt v"
  let ?bs = "buckets b"
  let ?b = "b\<lparr> buckets := observe_buckets v ?bs \<rparr>"
  let ?s1 = "s\<lparr> bhists := (bhists s)[unat hid := Some ?b] \<rparr>"
  have bh: "bhists s' = bhists ?s1" by (simp add: s')
  have "registered s hid" using assms(1) o(1,2) by (rule wf_registeredI)
  then have lb: "length ?bs = 65" using o(4) by (simp add: registered_def registered_at_def)
  have l: "?l < length ?bs" using lzcnt_le [of v] lb by simp
  have "bucket_counts s (unat hid) ?l \<le> g (unat hid) ?l" using assms(2) by blast
  then have cg: "unat (?bs ! ?l) \<le> g (unat hid) ?l"
    by (simp only: bucket_counts_Some [OF o(3,4) l])
  have fit: "g (unat hid) ?l + 1 < 2 ^ 64" using assms(3) Observe by simp
  have "unat (?bs ! ?l) < 2 ^ 64 - 1" using cg fit by simp
  then have inc: "unat (?bs ! ?l + 1) = unat (?bs ! ?l) + 1" by (rule unat_succ_u64)
  have le: "?bs ! ?l \<le> ?bs ! ?l + 1" using inc by (simp add: word_le_nat_alt)
  have m: "buckets_mono s ?s1"
    unfolding buckets_mono_iff
  proof (intro conjI allI impI)
    show "length (bhists ?s1) = length (bhists s)" by simp
  next
    fix k b0 assume k: "k < length (bhists s)" and b0: "bhists s ! k = Some b0"
    show "\<exists>b'. bhists ?s1 ! k = Some b' \<and> length (buckets b') = length (buckets b0) \<and>
           (\<forall>j < length (buckets b0). buckets b0 ! j \<le> buckets b' ! j)"
    proof (cases "k = unat hid")
      case True
      then have e: "b0 = b" using b0 o(4) by simp
      have "\<forall>j < length ?bs. ?bs ! j \<le> observe_buckets v ?bs ! j"
      proof (intro allI impI)
        fix j assume "j < length ?bs"
        then show "?bs ! j \<le> observe_buckets v ?bs ! j"
          using le by (cases "j = ?l") (simp_all add: observe_buckets_def)
      qed
      then show ?thesis using True o(3) e by (simp add: observe_buckets_def)
    next
      case False
      then show ?thesis using b0 by simp
    qed
  qed
  have "bucket_counts ?s1 k j \<le> (g(unat hid := (g (unat hid))(?l := g (unat hid) ?l + 1))) k j"
    for k j
  proof (cases "k = unat hid")
    case False
    then show ?thesis using assms(2) by (simp add: bucket_counts_update)
  next
    case True
    have old: "bucket_counts s (unat hid) j \<le> g (unat hid) j" using assms(2) by blast
    show ?thesis
    proof (cases "j < length ?bs")
      case False
      then show ?thesis using True o(3) by (simp add: bucket_counts_update observe_buckets_def)
    next
      case j: True
      have oj: "unat (?bs ! j) \<le> g (unat hid) j"
        using old by (simp only: bucket_counts_Some [OF o(3,4) j])
      show ?thesis
        using True o(3) j l oj cg inc
        by (cases "j = ?l") (simp_all add: bucket_counts_update observe_buckets_def)
    qed
  qed
  then have "\<forall>k j. bucket_counts s' k j \<le> next_increments x g k j"
    using Observe by (simp add: bucket_counts_bhists [OF bh])
  moreover have "buckets_mono s s'"
    using m bh by (simp add: buckets_mono_iff)
  ultimately show ?thesis by simp
next
  case (Extract hid)
  then obtain h where s': "s' = s\<lparr> hists := (hists s)[unat hid := Some (snd (extractAndReset h))] \<rparr>"
    using assms(4) by (auto split: if_splits option.splits)
  have bh: "bhists s' = bhists s" by (simp add: s')
  show ?thesis
    using assms(2) Extract buckets_mono_same [OF bh] by (simp add: bucket_counts_bhists [OF bh])
next
  case GetAll
  obtain m s1 where r: "getAllHistograms s = Inr (m, s1)" "bhists s1 = bhists s"
    using getAllHistograms_wf [OF assms(1)] by blast
  then have eq: "s' = s1" using assms(4) GetAll by simp
  show ?thesis
    using assms(2) GetAll buckets_mono_same [OF r(2)]
    by (simp add: eq bucket_counts_bhists [OF r(2)])
next
  case GetAllBuckets
  then have "s' = s" using assms(4) by (auto split: sum.splits)
  then show ?thesis using assms(2) GetAllBuckets buckets_mono_refl [of s] by simp
qed

lemma run_increments:
  "wf_registry s \<Longrightarrow> \<forall>k j. bucket_counts s k j \<le> g k j \<Longrightarrow> increments_below g ops \<Longrightarrow>
   run ops s = Inr s' \<Longrightarrow> buckets_mono s s'"
proof (induction ops arbitrary: s g)
  case Nil
  then show ?case by (simp add: buckets_mono_refl)
next
  case (Cons x xs)
  obtain s1 where s1: "step x s = Inr s1" "run xs s1 = Inr s'"
    using Cons.prems(4) by (auto split: sum.splits)
  have f: "increment_fits g x" "increments_below (next_increments x g) xs"
    using Cons.prems(3) by simp_all
  have w1: "wf_registry s1" using Cons.prems(1) s1(1) by (rule step_wf)
  have i1: "buckets_mono s s1" "\<forall>k j. bucket_counts s1 k j \<le> next_increments x g k j"
    using step_increments [OF Cons.prems(1,2) f(1) s1(1)] by simp_all
  have "buckets_mono s1 s'" using Cons.IH [OF w1 i1(2) f(2) s1(2)] .
  with i1(1) show ?case by (rule buckets_mono_trans)
qed

lemma saturated_histogram_facts:
  "wf_registry saturated_histogram"
  "registered saturated_histogram 0"
  "hists saturated_histogram ! unat (0::u32) = Some newHist"
  "bhists saturated_histogram ! unat (0::u32) =
     Some \<lparr> buckets = (replicate 65 0)[0 := MaxUint64] \<rparr>"
  "0 < length (bhists saturated_histogram)"
proof -
  let ?s = "one_histogram ''latency'' False"
  let ?b = "\<lparr> buckets = (replicate 65 0)[0 := MaxUint64] \<rparr>"
  note f = one_histogram_facts [of "''latency''" False]
  have len: "0 < length (hists ?s)" "0 < length (bhists ?s)"
    using f(1) by (simp_all add: registered_def registered_at_def)
  have "(hists ?s)[0 := Some newHist] = (hists ?s)[0 := hists ?s ! 0]"
    using f(2) by simp
  also have "\<dots> = hists ?s" by (rule list_update_id)
  finally have h0: "(hists ?s)[0 := Some newHist] = hists ?s" .
  have eq: "saturated_histogram =
      ?s\<lparr> bhists := (bhists ?s)[0 := Some ?b], hists := (hists ?s)[0 := Some newHist] \<rparr>"
    by (simp add: saturated_histogram_def h0)
  have c: "0 < unat (curHistID ?s)" by (simp add: f(6))
  show wf: "wf_registry saturated_histogram"
    unfolding eq using wf_one_histogram c
    by (rule wf_update_slot) (simp_all add: newHist_def newHdat_buf)
  show h: "hists saturated_histogram ! unat (0::u32) = Some newHist"
    using f(2) by (simp add: saturated_histogram_def)
  show "bhists saturated_histogram ! unat (0::u32) = Some ?b"
    using len(2) by (simp add: saturated_histogram_def)
  show "0 < length (bhists saturated_histogram)"
    using len(2) by (simp add: saturated_histogram_def)
  have "unat (0::u32) < length (hists saturated_histogram)"
    using len(1) by (simp add: saturated_histogram_def)
  then show "registered saturated_histogram 0" using wf h by (intro wf_registeredI(1))
qed

text \<open>
  Claim C8, as amended. Start from a state of the package and run operations
  (registrations, observations, extractions, exports) without a panic, such that no
  observation of the run brings the number of increments of its bucket counter, the value
  the counter starts with included, to \<open>2^64\<close>. Then every bucket histogram of the first
  state is still registered in the last one, with as many counters, none of them smaller
  than it was. Nothing bounds the length of the run or the counters that are not
  incremented. In the last state \<open>getAllBucketHistograms\<close> does not panic and is a read:
  it leaves the state as it is, every list it returns has 65 elements, and under the name
  of a handle that is the last one registered with that name it returns the counters of
  that handle.
\<close>

theorem bucket_counters_monotone:
  assumes "wf_registry s" and "increments_below (bucket_counts s) ops"
    and "run ops s = Inr s'"
  shows "(\<forall>k < length (bhists s). \<forall>b. bhists s ! k = Some b \<longrightarrow>
        (\<exists>b'. bhists s' ! k = Some b' \<and> length (buckets b') = length (buckets b) \<and>
           (\<forall>j < length (buckets b). buckets b ! j \<le> buckets b' ! j))) \<and>
     (\<exists>m. getAllBucketHistograms s' = Inr m \<and> step GetAllBuckets s' = Inr s' \<and>
        (\<forall>name bs. m name = Some bs \<longrightarrow> length bs = 65) \<and>
        (\<forall>j < unat (curHistID s').
           (\<forall>k. j < k \<and> k < unat (curHistID s') \<longrightarrow> hnames s' ! k \<noteq> hnames s' ! j) \<longrightarrow>
           (\<exists>b. bhists s' ! j = Some b \<and> m (hnames s' ! j) = Some (buckets b))))"
proof -
  have r: "wf_registry s'" "buckets_mono s s'"
    using run_wf [OF assms(1,3)] run_increments [OF assms(1) _ assms(2,3)] by simp_all
  let ?n = "unat (curHistID s')"
  let ?f = "\<lambda>k. (hnames s' ! k, buckets (the (bhists s' ! k)))"
  let ?m = "map_of (rev (map ?f [0..<?n]))"
  have g: "getAllBucketHistograms s' = Inr ?m"
    using r(1) by (rule getAllBucketHistograms_wf)
  have w: "?n \<le> maxNumHists"
     "\<forall>i < maxNumHists. if i < ?n then registered_at s' i
                          else hists s' ! i = None \<and> bhists s' ! i = None"
    using r(1) [unfolded wf_registry_iff] by blast+
  have some: "\<exists>b. bhists s' ! k = Some b \<and> length (buckets b) = 65" if "k < ?n" for k
  proof -
    have "registered_at s' k" using that w by auto
    then show ?thesis by (auto simp: registered_at_def split: option.splits)
  qed
  have a: "\<forall>name bs. ?m name = Some bs \<longrightarrow> length bs = 65"
  proof (intro allI impI)
    fix name bs assume "?m name = Some bs"
    then have "(name, bs) \<in> set (rev (map ?f [0..<?n]))" by (rule map_of_SomeD)
    then obtain k where k: "k < ?n" "bs = buckets (the (bhists s' ! k))" by auto
    then show "length bs = 65" using some [OF k(1)] by auto
  qed
  have b: "\<forall>j < ?n. (\<forall>k. j < k \<and> k < ?n \<longrightarrow> hnames s' ! k \<noteq> hnames s' ! j) \<longrightarrow>
           (\<exists>b. bhists s' ! j = Some b \<and> ?m (hnames s' ! j) = Some (buckets b))"
  proof (intro allI impI)
    fix j assume j: "j < ?n" and last: "\<forall>k. j < k \<and> k < ?n \<longrightarrow> hnames s' ! k \<noteq> hnames s' ! j"
    obtain b where b: "bhists s' ! j = Some b" using some [OF j] by blast
    have "?m (fst (?f j)) = Some (snd (?f j))"
      using j last by (intro map_of_rev_last) simp_all
    then show "\<exists>b. bhists s' ! j = Some b \<and> ?m (hnames s' ! j) = Some (buckets b)"
      using b by simp
  qed
  have st: "step GetAllBuckets s' = Inr s'" by (simp add: g)
  have mono: "\<forall>k < length (bhists s). \<forall>b. bhists s ! k = Some b \<longrightarrow>
        (\<exists>b'. bhists s' ! k = Some b' \<and> length (buckets b') = length (buckets b) \<and>
           (\<forall>j < length (buckets b). buckets b ! j \<le> buckets b' ! j))"
    using r(2) [unfolded buckets_mono_iff] by (rule conjunct2)
  show ?thesis using mono g st a b by blast
qed

theorem bucket_counters_monotone_witness:
  "(\<exists>s' b'. run [Observe 0 0, GetAllBuckets] (one_histogram ''latency'' False) = Inr s' \<and>
      bhists s' ! 0 = Some b' \<and> length (buckets b') = 65 \<and>
      buckets newBHist ! 64 \<le> buckets b' ! 64) \<and>
   (\<exists>s' b'. run [Observe 0 0] saturated_histogram = Inr s' \<and>
      bhists s' ! 0 = Some b' \<and> length (buckets b') = 65 \<and> buckets b' ! 0 = MaxUint64)"
proof -
  let ?s = "one_histogram ''latency'' False"
  note f = one_histogram_facts [of "''latency''" False]
  have wf: "wf_registry ?s" by (rule wf_one_histogram)
  have len: "0 < length (bhists ?s)"
    using f(1) by (simp add: registered_def registered_at_def)
  have b0: "bucket_counts ?s 0 64 = 0"
    using len f(3) by (simp add: bucket_counts_def newBHist_def)
  have fit: "increments_below (bucket_counts ?s) [Observe 0 0, GetAllBuckets]"
    by (simp add: lzcnt_zero b0)
  obtain s1 where s1: "ObserveHist 0 0 ?s = Inr s1"
    using ObserveHist_Inr [OF f(1-3), of 0] by blast
  have wf1: "wf_registry s1" using wf s1 by (rule ObserveHist_wf)
  have "step GetAllBuckets s1 = Inr s1"
    by (simp add: getAllBucketHistograms_wf [OF wf1])
  then have run: "run [Observe 0 0, GetAllBuckets] ?s = Inr s1"
    using s1 by simp
  have "\<exists>b'. bhists s1 ! 0 = Some b' \<and> length (buckets b') = length (buckets newBHist) \<and>
           (\<forall>j < length (buckets newBHist). buckets newBHist ! j \<le> buckets b' ! j)"
    using bucket_counters_monotone [OF wf fit run, THEN conjunct1, rule_format, of 0 newBHist]
      len f(3) by simp
  then have A: "\<exists>s' b'. run [Observe 0 0, GetAllBuckets] ?s = Inr s' \<and>
      bhists s' ! 0 = Some b' \<and> length (buckets b') = 65 \<and>
      buckets newBHist ! 64 \<le> buckets b' ! 64"
    using run by (auto simp: newBHist_def)
  let ?t = saturated_histogram
  let ?b = "\<lparr> buckets = (replicate 65 0)[0 := MaxUint64] \<rparr>"
  note t = saturated_histogram_facts
  have c0: "bucket_counts ?t 0 64 = 0"
    using t(5) t(4) by (simp add: bucket_counts_def)
  have fit2: "increments_below (bucket_counts ?t) [Observe 0 0]"
    by (simp add: lzcnt_zero c0)
  obtain s2 where s2: "ObserveHist 0 0 ?t = Inr s2"
    using ObserveHist_Inr [OF t(2,3,4), of 0] by blast
  then have run2: "run [Observe 0 0] ?t = Inr s2" by simp
  have "\<exists>b'. bhists s2 ! 0 = Some b' \<and> length (buckets b') = length (buckets ?b) \<and>
           (\<forall>j < length (buckets ?b). buckets ?b ! j \<le> buckets b' ! j)"
    using bucket_counters_monotone [OF t(1) fit2 run2, THEN conjunct1, rule_format, of 0 ?b]
      t(5) t(4) by simp
  then obtain b' where b': "bhists s2 ! 0 = Some b'" "length (buckets b') = 65"
    "\<forall>j < 65. buckets ?b ! j \<le> buckets b' ! j"
    by auto
  have "MaxUint64 \<le> buckets b' ! 0" using b'(3) [rule_format, of 0] by simp
  then have "buckets b' ! 0 = MaxUint64"
    using MaxUint64_top [of "buckets b' ! 0"] by (rule antisym [rotated])
  then have B: "\<exists>s' b'. run [Observe 0 0] ?t = Inr s' \<and>
      bhists s' ! 0 = Some b' \<and> length (buckets b') = 65 \<and> buckets b' ! 0 = MaxUint64"
    using run2 b'(1,2) by blast
  show ?thesis using A B by (rule conjI)
qed

text \<open>The claim as stated has the counters never decrease. A bucket counter is a 64-bit
  number: bucket 64 stands at \<open>2^64 - 1\<close> after as many observations of the value 0, and
  at 0 after one more.\<close>

theorem bucket_wraps_counterexample:
  "scenario_bucket ''latency'' False (replicate (2 ^ 64 - 1) 0) 64 = Inr MaxUint64 \<and>
   scenario_bucket ''latency'' False (replicate (2 ^ 64 - 1) 0 @ [0]) 64 = Inr 0 \<and>
   (0::u64) < MaxUint64"
proof -
  let ?bs = "replicate 65 (0::u64)"
  let ?n = "2 ^ 64 - 1 :: nat"
  have l: "lzcnt 0 < length ?bs" by (simp add: lzcnt_zero)
  have a: "fold observe_buckets (replicate ?n 0) ?bs ! 64 = MaxUint64"
    using fold_observe_buckets_replicate [OF l, of ?n]
    by (simp add: lzcnt_zero MaxUint64_def)
  have len: "64 < length (fold observe_buckets (replicate ?n 0) ?bs)"
    by (simp only: length_fold_observe_buckets) simp
  have "fold observe_buckets (replicate ?n 0 @ [0]) ?bs ! 64 =
      observe_buckets 0 (fold observe_buckets (replicate ?n 0) ?bs) ! 64"
    by (simp only: fold_append fold.simps o_apply id_apply)
  also have "\<dots> = fold observe_buckets (replicate ?n 0) ?bs ! 64 + 1"
    using len by (simp add: observe_buckets_def lzcnt_zero)
  also have "\<dots> = 0" unfolding a by (simp add: MaxUint64_def)
  finally have b: "fold observe_buckets (replicate ?n 0 @ [0]) ?bs ! 64 = 0" .
  have j: "(64::nat) < 65" by simp
  show ?thesis
    unfolding scenario_bucket_eq [OF j] a b by (simp add: MaxUint64_def)
qed

end
